theory Spec2Isabelle
  imports Complex_Main
begin

section \<open>The target: failure classification, idle polling, launch\<close>

text \<open>
  The model follows \<^verbatim>\<open>grizzly/target/puppet_target.py\<close> and
  \<^verbatim>\<open>grizzly/reduce/interesting.py\<close>. Python floats and the integers mixed
  with them (timeouts, CPU percentages, clock readings) are idealised as \<^typ>\<open>real\<close>.
  What the wrapped \<^verbatim>\<open>FFPuppet\<close>, the \<^verbatim>\<open>sapphire\<close> server, the clock and the
  file system answer is an input of the model, except that a directory which the
  code has made is there from then on; what the code does to them is recorded as a list
  of events.
\<close>

datatype result_status = RESULT_NONE | RESULT_FAILURE | RESULT_IGNORED

datatype poll_status = POLL_BUSY | POLL_IDLE

datatype rc_reason = RC_ALERT | RC_CLOSED | RC_EXITED | RC_WORKER

datatype error =
    RuntimeError string
  | IndexError
  | OSError string
  | TargetError string
  | TargetLaunchError string
  | TargetLaunchTimeout string
  | OtherError string

text \<open>What \<^verbatim>\<open>FFPuppet.launch\<close> can raise: a \<^verbatim>\<open>LaunchError\<close>, a
  \<^verbatim>\<open>BrowserTimeoutError\<close> (the subclass of it that \<^verbatim>\<open>PuppetTarget.launch\<close> tests
  for inside its handler), or an exception of another class. Each carries
  \<^verbatim>\<open>str(exc)\<close>.\<close>

datatype puppet_exception = LaunchError string | BrowserTimeoutError string | NotLaunchError string

text \<open>What \<^verbatim>\<open>detect_failure\<close> reads from the puppet: \<^verbatim>\<open>is_healthy()\<close> and
  \<^verbatim>\<open>is_running()\<close> before the close, \<^verbatim>\<open>reason\<close> and \<^verbatim>\<open>available_logs()\<close>
  after it.\<close>

record puppet_obs =
  is_healthy :: bool
  is_running :: bool
  reason :: "rc_reason option"
  available_logs :: "string list"

text \<open>The \<^verbatim>\<open>location\<close> property of the oracle builds a URL from the server's port and
  either the landing page or the harness with \<^verbatim>\<open>iter_timeout * 1000\<close> printed by
  \<^verbatim>\<open>%d\<close>; the model keeps the parts instead of the formatted string.\<close>

datatype location = LandingPage nat string | HarnessPage nat int

text \<open>The keyword arguments of \<^verbatim>\<open>FFPuppet.launch\<close>. A value of the environment
  is a string or Python's \<^verbatim>\<open>None\<close>.\<close>

record launch_args =
  la_binary :: string
  la_launch_timeout :: int
  la_location :: location
  la_log_limit :: int
  la_memory_limit :: int
  la_prefs_js :: string
  la_extension :: "string option"
  la_env_mod :: "string \<rightharpoonup> string option"

datatype target_call = Wait real | AbortHungProc | Close | PuppetLaunch launch_args

text \<open>The exception classes that \<^verbatim>\<open>puppet_target.py\<close> imports from
  \<^verbatim>\<open>grizzly/target/target.py\<close>, which is not among the sources.\<close>

datatype target_exception = TargetErrorClass | TargetLaunchErrorClass | TargetLaunchTimeoutClass

text \<open>The attributes of the target that the code reads. The last field is no attribute:
  it stands for the class declarations of \<^verbatim>\<open>grizzly/target/target.py\<close>, and says of
  each exception class of the target whether it derives from \<^verbatim>\<open>ffpuppet.LaunchError\<close>.
  It is a parameter of the model; no step changes it.\<close>

record target =
  expect_close :: bool
  platform_system :: string
  prefs :: "string option"
  binary :: string
  extension :: "string option"
  launch_timeout :: int
  log_limit :: int
  memory_limit :: int
  rl_countdown :: int
  rl_reset :: int
  derives_LaunchError :: "target_exception \<Rightarrow> bool"

text \<open>\<^verbatim>\<open>PuppetTarget.detect_failure\<close>: the status returned and the calls made on the
  puppet (and \<^verbatim>\<open>_abort_hung_proc\<close>), in order.\<close>

definition detect_failure ::
  "target \<Rightarrow> string list \<Rightarrow> bool \<Rightarrow> puppet_obs \<Rightarrow> result_status \<times> target_call list" where
  "detect_failure tgt ignored was_timeout p =
     (let w30 = (if expect_close tgt \<and> \<not> was_timeout then [Wait 30] else []);
          healthy = is_healthy p;
          closing =
            (if \<not> healthy \<or> was_timeout then
               (if is_running p then
                  (if was_timeout \<and> ''timeout'' \<notin> set ignored
                        \<and> platform_system tgt = ''Linux''
                   then [AbortHungProc, Wait 1] else [])
                else []) @ [Close]
             else []);
          status =
            (if \<not> healthy then
               (if reason p = Some RC_CLOSED then RESULT_NONE
                else if reason p = Some RC_EXITED then RESULT_NONE
                else if reason p = Some RC_WORKER \<and> ''memory'' \<in> set ignored
                        \<and> ''ffp_worker_memory_usage'' \<in> set (available_logs p)
                  then RESULT_IGNORED
                else if reason p = Some RC_WORKER \<and> ''log-limit'' \<in> set ignored
                        \<and> ''ffp_worker_log_size'' \<in> set (available_logs p)
                  then RESULT_IGNORED
                else RESULT_FAILURE)
             else if was_timeout then
               (if ''timeout'' \<in> set ignored then RESULT_IGNORED else RESULT_FAILURE)
             else RESULT_NONE)
      in (status, w30 @ closing))"

text \<open>One reading of the world inside a polling loop: the clock, the per-process CPU
  usage, whether the target runs, and whether the trial has set
  \<^verbatim>\<open>iteration_done_event\<close>. Each loop iteration of the monitor consumes one reading;
  a loop that needs a reading when none is left has not returned (\<open>None\<close>).\<close>

record tick =
  now :: real
  cpu_usage :: "(nat \<times> real) list"
  running :: bool
  iteration_done :: bool

text \<open>\<^verbatim>\<open>PuppetTarget.poll_for_idle\<close>: the loop
  \<^verbatim>\<open>while time.time() - start_time < interval\<close>, its \<^verbatim>\<open>return POLL_BUSY\<close> on
  a sample at or above the threshold, its \<^verbatim>\<open>break\<close> when the target no longer
  runs, and the \<^verbatim>\<open>return POLL_IDLE\<close> that both the \<^verbatim>\<open>break\<close> and the end of the
  window reach.\<close>

fun poll_loop :: "real \<Rightarrow> real \<Rightarrow> real \<Rightarrow> tick list \<Rightarrow> (poll_status \<times> tick list) option" where
  "poll_loop threshold interval start_time [] = None"
| "poll_loop threshold interval start_time (t # ts) =
     (if now t - start_time < interval then
        (if list_ex (\<lambda>(pid, cpu). cpu \<ge> threshold) (cpu_usage t) then Some (POLL_BUSY, ts)
         else if \<not> running t then Some (POLL_IDLE, ts)
         else poll_loop threshold interval start_time ts)
      else Some (POLL_IDLE, ts))"

text \<open>The first reading gives \<^verbatim>\<open>start_time = time.time()\<close>.\<close>

fun poll_for_idle :: "real \<Rightarrow> real \<Rightarrow> tick list \<Rightarrow> (poll_status \<times> tick list) option" where
  "poll_for_idle threshold interval [] = None"
| "poll_for_idle threshold interval (t # ts) = poll_loop threshold interval (now t) ts"

text \<open>Modelled from the spec: the constants \<^verbatim>\<open>POLL_BUSY\<close> and \<^verbatim>\<open>POLL_IDLE\<close> are
  declared by the class \<^verbatim>\<open>Target\<close>, which is not among the sources. The monitor
  tests the value returned by \<^verbatim>\<open>poll_for_idle\<close> for truth; the specification has the
  idle signal raised on Idle and not on Busy.\<close>

fun truthy :: "poll_status \<Rightarrow> bool" where
  "truthy POLL_IDLE = True"
| "truthy POLL_BUSY = False"

text \<open>\<^verbatim>\<open>PuppetTarget.launch\<close>. The last argument is what \<^verbatim>\<open>FFPuppet.launch\<close> does
  when it is reached: it returns (\<open>None\<close>) or raises. The handler
  \<^verbatim>\<open>except LaunchError\<close> closes the target and raises \<^verbatim>\<open>TargetLaunchTimeout\<close> for
  a \<^verbatim>\<open>BrowserTimeoutError\<close> and \<^verbatim>\<open>TargetLaunchError\<close> for any other
  \<^verbatim>\<open>LaunchError\<close>; an exception of another class passes through. The result is the
  exception that leaves \<^verbatim>\<open>PuppetTarget.launch\<close>, if any, the target, and the calls
  made on the puppet.\<close>

definition launch ::
  "target \<Rightarrow> location \<Rightarrow> (string \<rightharpoonup> string option) option \<Rightarrow> puppet_exception option
     \<Rightarrow> error option \<times> target \<times> target_call list" where
  "launch tgt loc env_mod outcome =
     (case prefs tgt of
        None \<Rightarrow> (Some (TargetError ''A prefs.js file is required''), tgt, [])
      | Some pj \<Rightarrow>
          if pj = [] then (Some (TargetError ''A prefs.js file is required''), tgt, [])
          else
            let tgt1 = tgt\<lparr>rl_countdown := rl_reset tgt\<rparr>;
                env0 = (case env_mod of None \<Rightarrow> Map.empty | Some m \<Rightarrow> m);
                env1 = env0(''MOZ_DISABLE_NONLOCAL_CONNECTIONS'' \<mapsto> Some ''1'');
                env2 = env1(''MOZ_CRASHREPORTER_SHUTDOWN'' \<mapsto> Some ''1'');
                args = \<lparr>la_binary = binary tgt, la_launch_timeout = launch_timeout tgt,
                        la_location = loc, la_log_limit = log_limit tgt,
                        la_memory_limit = memory_limit tgt, la_prefs_js = pj,
                        la_extension = extension tgt, la_env_mod = env2\<rparr>
            in (case outcome of
                  None \<Rightarrow> (None, tgt1, [PuppetLaunch args])
                | Some (BrowserTimeoutError m) \<Rightarrow>
                    (Some (TargetLaunchTimeout m), tgt1, [PuppetLaunch args, Close])
                | Some (LaunchError m) \<Rightarrow>
                    (Some (TargetLaunchError m), tgt1, [PuppetLaunch args, Close])
                | Some (NotLaunchError m) \<Rightarrow>
                    (Some (OtherError m), tgt1, [PuppetLaunch args])))"

text \<open>\<^verbatim>\<open>isinstance(exc, ffpuppet.LaunchError)\<close> for an exception that leaves
  \<^verbatim>\<open>PuppetTarget.launch\<close>, the test of the handler \<^verbatim>\<open>except ffpuppet.LaunchError\<close>
  of \<^verbatim>\<open>Interesting._run\<close>: what an exception class of the target is declared to be;
  no other exception that leaves the launch is one.\<close>

fun is_LaunchError :: "(target_exception \<Rightarrow> bool) \<Rightarrow> error \<Rightarrow> bool" where
  "is_LaunchError d (TargetError m) = d TargetErrorClass"
| "is_LaunchError d (TargetLaunchError m) = d TargetLaunchErrorClass"
| "is_LaunchError d (TargetLaunchTimeout m) = d TargetLaunchTimeoutClass"
| "is_LaunchError d e = False"

section \<open>The oracle\<close>

datatype served_status = SERVED_ALL | SERVED_NONE | SERVED_REQUEST | SERVED_TIMEOUT

datatype entry_kind = File | Directory | Other

datatype event =
    ServerCreate real
  | ServerAddHarness
  | ServerSetRedirect string string
  | ServerClose
  | TargetLaunch location
  | Sleep real
  | MonitorStart
  | MkTemp
  | Unlink
  | ServePath
  | DetectFailure bool
  | TargetCall target_call
  | MkDir string
  | SaveLogs string
  | CreateCrashInfo string
  | AltCrashCb string
  | InterestingCb string
  | CheckRelaunch
  | IterationDoneSet
  | MonitorJoin
  | Copy string string
  | CopyTree string string

text \<open>The fields of \<^verbatim>\<open>Interesting\<close>. A callback is kept as whether it is set; the
  server as the timeout it was built with. \<open>made\<close> is the part of the file system that
  the oracle itself decides: the directories that its calls of \<^verbatim>\<open>os.mkdir\<close> and
  \<^verbatim>\<open>shutil.copytree\<close> have made (with those a session starts with); no line of the
  oracle or of the target removes one. \<open>trace\<close> lists the calls the oracle has made on its
  collaborators and \<open>history\<close> what each call of \<^verbatim>\<open>_run\<close> so far returned or
  raised; neither is read by the code.\<close>

record oracle_state =
  ignore :: "string list"
  target :: target
  server :: "real option"
  orig_sig :: "string option"
  alt_crash_cb :: bool
  interesting_cb :: bool
  iter_timeout :: real
  no_harness :: bool
  skip :: int
  skipped :: "int option"
  min_crashes :: int
  repeat :: int
  idle_poll :: real
  any_crash :: bool
  idle_threshold :: real
  idle_timeout :: real
  use_result_cache :: bool
  result_cache :: "string \<rightharpoonup> bool \<times> string"
  env_mod :: "(string \<rightharpoonup> string option) option"
  landing_page :: string
  wwwdir :: "string option"
  made :: "string set"
  trace :: "event list"
  history :: "(error + bool) list"

definition runs :: "oracle_state \<Rightarrow> nat" where
  "runs st = length (history st)"

subsection \<open>Paths\<close>

text \<open>\<^verbatim>\<open>os.path.basename\<close> and \<^verbatim>\<open>os.path.dirname\<close> of \<^verbatim>\<open>posixpath\<close>.\<close>

definition basename :: "string \<Rightarrow> string" where
  "basename p = rev (takeWhile (\<lambda>c. c \<noteq> CHR ''/'') (rev p))"

definition dirname :: "string \<Rightarrow> string" where
  "dirname p =
     (let head = rev (dropWhile (\<lambda>c. c \<noteq> CHR ''/'') (rev p))
      in if head \<noteq> [] \<and> \<not> list_all (\<lambda>c. c = CHR ''/'') head
         then rev (dropWhile (\<lambda>c. c = CHR ''/'') (rev head)) else head)"

text \<open>\<^verbatim>\<open>s.split("_", 1)[1]\<close>: the text after the first underscore; an
  \<^verbatim>\<open>IndexError\<close> when there is none.\<close>

definition split1 :: "string \<Rightarrow> string option" where
  "split1 s = (if CHR ''_'' \<in> set s then Some (tl (dropWhile (\<lambda>c. c \<noteq> CHR ''_'') s)) else None)"

text \<open>\<^verbatim>\<open>os.path.join\<close> of \<^verbatim>\<open>posixpath\<close>, for two parts.\<close>

definition join :: "string \<Rightarrow> string \<Rightarrow> string" where
  "join a b =
     (if b \<noteq> [] \<and> hd b = CHR ''/'' then b
      else if a = [] \<or> last a = CHR ''/'' then a @ b
      else a @ ''/'' @ b)"

subsection \<open>Initialisation and timeouts\<close>

text \<open>\<^verbatim>\<open>Interesting.init\<close>; the argument is \<^verbatim>\<open>os.path.realpath(self.landing_page)\<close>.\<close>

definition init :: "string \<Rightarrow> oracle_state \<Rightarrow> oracle_state" where
  "init realpath st =
     st\<lparr>wwwdir := Some (dirname realpath),
        landing_page := basename (landing_page st),
        skipped := None,
        result_cache := Map.empty\<rparr>"

text \<open>\<^verbatim>\<open>Interesting.update_timeout\<close>.\<close>

definition update_timeout :: "real \<Rightarrow> oracle_state \<Rightarrow> oracle_state" where
  "update_timeout run_time st =
     (let new_poll_timeout = max 10 (min (run_time * 1.5) (idle_timeout st));
          st1 = (if new_poll_timeout < idle_timeout st
                 then st\<lparr>idle_timeout := new_poll_timeout\<rparr> else st);
          new_iter_timeout = max 10 (min (run_time * 2) (iter_timeout st1))
      in if new_iter_timeout < iter_timeout st1 then
           (let st2 = st1\<lparr>iter_timeout := new_iter_timeout\<rparr>
            in case server st2 of
                 None \<Rightarrow> st2
               | Some t \<Rightarrow> st2\<lparr>server := None, trace := trace st2 @ [ServerClose]\<rparr>)
         else st1)"

text \<open>\<^verbatim>\<open>Interesting.location\<close>, given \<^verbatim>\<open>self.server.get_port()\<close>; \<^verbatim>\<open>%d\<close>
  truncates towards zero.\<close>

definition trunc :: "real \<Rightarrow> int" where
  "trunc x = (if x \<ge> 0 then \<lfloor>x\<rfloor> else \<lceil>x\<rceil>)"

definition location :: "nat \<Rightarrow> oracle_state \<Rightarrow> location" where
  "location port st =
     (if no_harness st then LandingPage port (landing_page st)
      else HarnessPage port (trunc (iter_timeout st * 1000)))"

subsection \<open>The idle monitor\<close>

text \<open>\<^verbatim>\<open>Interesting.monitor_process\<close>. The first loop waits while
  \<^verbatim>\<open>exp_time >= time.time() and not iteration_done_event.is_set()\<close>; the second
  polls until the event is set or a poll answers idle. The result says whether
  \<^verbatim>\<open>idle_timeout_event.set()\<close> was called.\<close>

fun wait_loop :: "real \<Rightarrow> tick list \<Rightarrow> tick list option" where
  "wait_loop exp_time [] = None"
| "wait_loop exp_time (t # ts) =
     (if exp_time \<ge> now t \<and> \<not> iteration_done t then wait_loop exp_time ts else Some ts)"

lemma poll_loop_shorter:
  "poll_loop threshold interval start_time ts = Some (r, ts') \<Longrightarrow> length ts' < length ts"
  by (induction ts) (auto split: if_splits)

lemma poll_for_idle_shorter:
  "poll_for_idle threshold interval ts = Some (r, ts') \<Longrightarrow> length ts' < length ts"
  by (cases ts) (auto dest: poll_loop_shorter)

function monitor_loop :: "real \<Rightarrow> real \<Rightarrow> tick list \<Rightarrow> (bool \<times> tick list) option" where
  "monitor_loop threshold interval [] = None"
| "monitor_loop threshold interval (t # ts) =
     (if iteration_done t then Some (False, ts)
      else (case poll_for_idle threshold interval ts of
              None \<Rightarrow> None
            | Some (r, ts') \<Rightarrow>
                if truthy r then Some (True, ts') else monitor_loop threshold interval ts'))"
  by pat_completeness auto
termination
  by (relation "measure (\<lambda>(threshold, interval, ts). length ts)")
     (auto dest: poll_for_idle_shorter)

fun monitor_process :: "oracle_state \<Rightarrow> tick list \<Rightarrow> (bool \<times> tick list) option" where
  "monitor_process st [] = None"
| "monitor_process st (t # ts) =
     (case wait_loop (now t + idle_timeout st) ts of
        None \<Rightarrow> None
      | Some ts' \<Rightarrow> monitor_loop (idle_threshold st) (idle_poll st) ts')"

subsection \<open>One trial\<close>

text \<open>The crash built from the saved logs: \<^verbatim>\<open>createShortSignature()\<close>,
  \<^verbatim>\<open>createCrashSignature(maxFrames=n)\<close>, and which signatures match it.\<close>

record crash_info =
  short_signature :: string
  crash_signature :: "nat \<Rightarrow> string"
  matched_by :: "string \<Rightarrow> bool"

text \<open>What the world does during one trial. An \<open>error option\<close> is the exception a
  collaborator raises at that step, if any. \<open>target_closed\<close> is what
  \<^verbatim>\<open>self.target.closed\<close> answers before the launch (it reads the puppet, which
  \<^verbatim>\<open>Target.check_relaunch\<close>, not among the sources, may have closed), and \<open>puppet_launch k\<close> what
  \<^verbatim>\<open>FFPuppet.launch\<close> does when the attempt numbered \<open>k\<close> of the trial reaches it:
  it returns (\<open>None\<close>) or raises. \<open>mkdir_error\<close> is an exception of \<^verbatim>\<open>os.mkdir\<close>
  for a directory that the oracle has not made itself (it is there for another reason,
  or cannot be made), \<open>save_logs_error\<close> one of \<^verbatim>\<open>self.target.save_logs\<close>.\<close>

record trial_obs =
  target_closed :: bool
  port :: nat
  puppet_launch :: "nat \<Rightarrow> puppet_exception option"
  serve :: "error + served_status"
  puppet :: puppet_obs
  detect_error :: "error option"
  mkdir_error :: "error option"
  save_logs_error :: "error option"
  report :: "error + crash_info"
  alt_cb_error :: "error option"
  relaunch_error :: "error option"
  elapsed :: real

type_synonym 'a outcome = "(error + 'a) \<times> oracle_state"

definition log_event :: "event list \<Rightarrow> oracle_state \<Rightarrow> oracle_state" where
  "log_event evs st = st\<lparr>trace := trace st @ evs\<rparr>"

text \<open>Lines 215 to 230: the server is built when there is none.\<close>

definition ensure_server :: "oracle_state \<Rightarrow> oracle_state" where
  "ensure_server st =
     (case server st of
        Some t \<Rightarrow> st
      | None \<Rightarrow>
          let serve_timeout = (if no_harness st then iter_timeout st else iter_timeout st + 10);
              st1 = log_event [ServerCreate serve_timeout] (st\<lparr>server := Some serve_timeout\<rparr>)
          in if \<not> no_harness st
             then log_event [ServerAddHarness, ServerSetRedirect ''/first_test'' (landing_page st1)] st1
             else st1)"

text \<open>Lines 235 to 241: \<^verbatim>\<open>for _ in range(4)\<close>, with the number of iterations left
  and the index of the next attempt. Each iteration calls \<^verbatim>\<open>self.target.launch\<close>
  with \<^verbatim>\<open>self.location\<close> and \<^verbatim>\<open>self.env_mod\<close>; a call that returns ends the loop,
  an exception that is a \<^verbatim>\<open>ffpuppet.LaunchError\<close> is followed by the sleep and the
  next iteration, and any other exception leaves the loop and the trial.\<close>

fun launch_loop :: "nat \<Rightarrow> nat \<Rightarrow> trial_obs \<Rightarrow> oracle_state \<Rightarrow> error option \<times> oracle_state" where
  "launch_loop 0 k obs st = (None, st)"
| "launch_loop (Suc n) k obs st =
     (let loc = location (port obs) st;
          (r, tgt1, calls) = launch (target st) loc (env_mod st) (puppet_launch obs k);
          st1 = log_event (TargetLaunch loc # map TargetCall calls) (st\<lparr>target := tgt1\<rparr>)
      in case r of
           None \<Rightarrow> (None, st1)
         | Some e \<Rightarrow>
             if is_LaunchError (derives_LaunchError (target st)) e
             then launch_loop n (Suc k) obs (log_event [Sleep 15] st1)
             else (Some e, st1))"

text \<open>Lines 233 to 241.\<close>

definition relaunch :: "trial_obs \<Rightarrow> oracle_state \<Rightarrow> error option \<times> oracle_state" where
  "relaunch obs st = (if target_closed obs then launch_loop 4 0 obs st else (None, st))"

text \<open>Lines 254 to 272: serving the test case. Without the harness a temporary file is
  made first and unlinked in a \<^verbatim>\<open>finally\<close>.\<close>

definition serve_testcase :: "trial_obs \<Rightarrow> oracle_state \<Rightarrow> served_status outcome" where
  "serve_testcase obs st =
     (if no_harness st then (serve obs, log_event [MkTemp, ServePath, Unlink] st)
      else (serve obs, log_event [ServerSetRedirect ''/next_test'' (landing_page st), ServePath] st))"

text \<open>Lines 283 to 288 and 310 to 315: close the target, make the directory
  \<^verbatim>\<open>temp_prefix + "_logs"\<close> and save the logs in it. \<^verbatim>\<open>os.mkdir\<close> raises when the
  directory is there already, as it is after an earlier trial that saved its logs under
  the same prefix.\<close>

definition save_logs :: "string \<Rightarrow> trial_obs \<Rightarrow> oracle_state \<Rightarrow> unit outcome" where
  "save_logs temp_prefix obs st =
     (let result_logs = temp_prefix @ ''_logs'';
          st1 = log_event [TargetCall Close, MkDir result_logs] st
      in if result_logs \<in> made st1 then (Inl (OSError (''File exists: '' @ result_logs)), st1)
         else
           (case mkdir_error obs of
              Some e \<Rightarrow> (Inl e, st1)
            | None \<Rightarrow>
                (let st2 = log_event [SaveLogs result_logs]
                             (st1\<lparr>made := insert result_logs (made st1)\<rparr>)
                 in case save_logs_error obs of
                      Some e \<Rightarrow> (Inl e, st2)
                    | None \<Rightarrow> (Inr (), st2))))"

text \<open>Lines 293 to 306: the verdict on a crash.\<close>

definition judge_crash :: "string \<Rightarrow> trial_obs \<Rightarrow> crash_info \<Rightarrow> oracle_state \<Rightarrow> bool outcome" where
  "judge_crash temp_prefix obs crash st =
     (if short_signature crash = ''No crash detected'' then (Inr False, st)
      else if (case orig_sig st of None \<Rightarrow> True | Some sig \<Rightarrow> matched_by crash sig) then
        (let st1 = (if orig_sig st = None \<and> \<not> any_crash st
                    then st\<lparr>orig_sig := Some (crash_signature crash 5)\<rparr> else st)
         in (Inr True, update_timeout (elapsed obs) st1))
      else if alt_crash_cb st then
        (let st1 = log_event [AltCrashCb temp_prefix] st
         in case alt_cb_error obs of Some e \<Rightarrow> (Inl e, st1) | None \<Rightarrow> (Inr False, st1))
      else (Inr False, st))"

text \<open>Lines 282 to 318: what is done with the classification.\<close>

definition handle_status ::
  "string \<Rightarrow> trial_obs \<Rightarrow> result_status \<Rightarrow> oracle_state \<Rightarrow> bool outcome" where
  "handle_status temp_prefix obs failure_detected st =
     (case failure_detected of
        RESULT_FAILURE \<Rightarrow>
          (case save_logs temp_prefix obs st of
             (Inl e, st1) \<Rightarrow> (Inl e, st1)
           | (Inr u, st1) \<Rightarrow>
               (let st2 = log_event [CreateCrashInfo (temp_prefix @ ''_logs'')] st1
                in case report obs of
                     Inl e \<Rightarrow> (Inl e, st2)
                   | Inr crash \<Rightarrow> judge_crash temp_prefix obs crash st2))
      | RESULT_IGNORED \<Rightarrow>
          (case save_logs temp_prefix obs st of
             (Inl e, st1) \<Rightarrow> (Inl e, st1)
           | (Inr u, st1) \<Rightarrow> (Inr False, st1))
      | RESULT_NONE \<Rightarrow> (Inr False, st))"

text \<open>Lines 244 to 321: the body of the \<^verbatim>\<open>try\<close>.\<close>

definition serve_and_classify :: "string \<Rightarrow> trial_obs \<Rightarrow> oracle_state \<Rightarrow> bool outcome" where
  "serve_and_classify temp_prefix obs st =
     (let st1 = log_event [MonitorStart] st
      in case serve_testcase obs st1 of
           (Inl e, st2) \<Rightarrow> (Inl e, st2)
         | (Inr server_status, st2) \<Rightarrow>
             (let was_timeout = (server_status = SERVED_TIMEOUT);
                  (failure_detected, calls) =
                     detect_failure (target st2) (ignore st2) was_timeout (puppet obs);
                  st3 = log_event (DetectFailure was_timeout # map TargetCall calls) st2
              in case detect_error obs of
                   Some e \<Rightarrow> (Inl e, st3)
                 | None \<Rightarrow>
                     (case handle_status temp_prefix obs failure_detected st3 of
                        (Inl e, st4) \<Rightarrow> (Inl e, st4)
                      | (Inr result, st4) \<Rightarrow>
                          (let st5 = log_event [CheckRelaunch] st4
                           in case relaunch_error obs of
                                Some e \<Rightarrow> (Inl e, st5)
                              | None \<Rightarrow> (Inr result, st5)))))"

text \<open>\<^verbatim>\<open>Interesting._run\<close>: the server, the launch, the \<^verbatim>\<open>try\<close> and its
  \<^verbatim>\<open>finally\<close>. An exception of the launch leaves before the \<^verbatim>\<open>try\<close>.\<close>

definition run :: "string \<Rightarrow> trial_obs \<Rightarrow> oracle_state \<Rightarrow> bool outcome" where
  "run temp_prefix obs st =
     (let st0 = ensure_server st;
          (r, st3) =
            (case relaunch obs st0 of
               (Some e, st1) \<Rightarrow> (Inl e, st1)
             | (None, st1) \<Rightarrow>
                 (let (r, st2) = serve_and_classify temp_prefix obs st1
                  in (r, log_event [IterationDoneSet, MonitorJoin] st2)))
      in (r, st3\<lparr>history := history st3 @ [r]\<rparr>))"

subsection \<open>The evaluation of a candidate\<close>

text \<open>What one call of \<^verbatim>\<open>interesting\<close> is given: the prefix, the SHA-1 digest of the
  bytes of \<^verbatim>\<open>reduce_file\<close> at that moment, and what the file system answers to
  \<^verbatim>\<open>glob\<close>. \<open>listdir d\<close> lists the names in the directory \<open>d\<close>, in the order of
  \<^verbatim>\<open>os.listdir\<close>, each with what \<^verbatim>\<open>os.path.isfile\<close> and \<^verbatim>\<open>os.path.isdir\<close> say
  of its path. \<open>wildcard_glob\<close> is what \<^verbatim>\<open>glob.glob\<close> returns when the cached prefix
  itself holds a character that \<^verbatim>\<open>glob\<close> reads as a wildcard.\<close>

record call =
  temp_prefix :: string
  cache_key :: string
  listdir :: "string \<Rightarrow> (string \<times> entry_kind) list"
  wildcard_glob :: "(string \<times> entry_kind) list"

text \<open>\<^verbatim>\<open>glob.has_magic\<close>: the characters that make \<^verbatim>\<open>glob\<close> read a path as a
  pattern.\<close>

definition has_magic :: "string \<Rightarrow> bool" where
  "has_magic s = list_ex (\<lambda>ch. ch = CHR ''*'' \<or> ch = CHR ''?'' \<or> ch = CHR ''['') s"

text \<open>\<^verbatim>\<open>glob.glob("%s_*" % cached_prefix)\<close>. For a prefix without such a character,
  \<^verbatim>\<open>glob\<close> splits the pattern by \<^verbatim>\<open>os.path.split\<close>, lists the directory part (the
  current directory when it is empty), keeps the names that begin with the last
  component of the prefix and an underscore, and joins each to the directory part.\<close>

definition glob :: "string \<Rightarrow> call \<Rightarrow> (string \<times> entry_kind) list" where
  "glob cached_prefix c =
     (if has_magic cached_prefix then wildcard_glob c
      else
        (let d = dirname cached_prefix;
             b = basename cached_prefix @ ''_''
         in map (\<lambda>(name, kind). (join d name, kind))
              (filter (\<lambda>(name, kind). take (length b) name = b)
                 (listdir c (if d = [] then ''.'' else d)))))"

text \<open>Lines 167 to 175: the copies of a cached interesting result, one file name of the
  glob after the other, up to the first exception. \<^verbatim>\<open>suffix[1]\<close> is evaluated when
  the arguments of the copy are, after the test of the kind. \<^verbatim>\<open>shutil.copytree\<close>
  makes the destination, and raises when it is there already.\<close>

fun replay :: "string \<Rightarrow> (string \<times> entry_kind) list \<Rightarrow> oracle_state \<Rightarrow> error option \<times> oracle_state" where
  "replay new_prefix [] st = (None, st)"
| "replay new_prefix ((filename, kind) # rest) st =
     (case kind of
        File \<Rightarrow>
          (case split1 (basename filename) of
             None \<Rightarrow> (Some IndexError, st)
           | Some suffix \<Rightarrow>
               replay new_prefix rest
                 (log_event [Copy filename (new_prefix @ ''_'' @ suffix)] st))
      | Directory \<Rightarrow>
          (case split1 (basename filename) of
             None \<Rightarrow> (Some IndexError, st)
           | Some suffix \<Rightarrow>
               (let dst = new_prefix @ ''_'' @ suffix;
                    st1 = log_event [CopyTree filename dst] st
                in if dst \<in> made st then (Some (OSError (''File exists: '' @ dst)), st1)
                   else replay new_prefix rest (st1\<lparr>made := insert dst (made st1)\<rparr>)))
      | Other \<Rightarrow>
          (Some (RuntimeError (''Cannot copy non-file/non-directory: '' @ filename)), st))"

text \<open>Lines 185 to 192 and 193 to 200: the two ways the loop of trials ends with a
  verdict.\<close>

definition store :: "call \<Rightarrow> bool \<Rightarrow> oracle_state \<Rightarrow> oracle_state" where
  "store c verdict st =
     (if use_result_cache st
      then st\<lparr>result_cache := (result_cache st)(cache_key c \<mapsto> (verdict, temp_prefix c))\<rparr>
      else st)"

definition finish_true :: "call \<Rightarrow> oracle_state \<Rightarrow> bool outcome" where
  "finish_true c st =
     (Inr True,
      store c True (if interesting_cb st then log_event [InterestingCb (temp_prefix c)] st else st))"

definition finish_false :: "call \<Rightarrow> oracle_state \<Rightarrow> bool outcome" where
  "finish_false c st = (Inr False, store c False st)"

text \<open>Lines 179 to 192: \<^verbatim>\<open>for i in range(n_tries)\<close> over the values of \<open>i\<close> still to
  come. The trial numbered \<open>runs st\<close> of the session meets \<open>world (runs st)\<close>.\<close>

fun trial_loop ::
  "(nat \<Rightarrow> trial_obs) \<Rightarrow> call \<Rightarrow> int \<Rightarrow> int list \<Rightarrow> int \<Rightarrow> oracle_state \<Rightarrow> bool outcome" where
  "trial_loop world c n_tries [] n_crashes st = finish_false c st"
| "trial_loop world c n_tries (i # rest) n_crashes st =
     (if n_tries - i < min_crashes st - n_crashes then finish_false c st
      else
        (case run (temp_prefix c) (world (runs st)) st of
           (Inl e, st1) \<Rightarrow> (Inl e, st1)
         | (Inr True, st1) \<Rightarrow>
             if n_crashes + 1 \<ge> min_crashes st1 then finish_true c st1
             else trial_loop world c n_tries rest (n_crashes + 1) st1
         | (Inr False, st1) \<Rightarrow> trial_loop world c n_tries rest n_crashes st1))"

text \<open>\<^verbatim>\<open>range(n)\<close>.\<close>

definition py_range :: "int \<Rightarrow> int list" where
  "py_range n = map int [0..<nat n]"

text \<open>Lines 157 to 200: the cache and the trials.\<close>

definition evaluate :: "(nat \<Rightarrow> trial_obs) \<Rightarrow> call \<Rightarrow> oracle_state \<Rightarrow> bool outcome" where
  "evaluate world c st =
     (let n_tries = max (repeat st) (min_crashes st);
          trials = trial_loop world c n_tries (py_range n_tries) 0 st
      in if use_result_cache st then
           (case result_cache st (cache_key c) of
              Some (result, cached_prefix) \<Rightarrow>
                if result then
                  (case replay (temp_prefix c) (glob cached_prefix c) st of
                     (Some e, st1) \<Rightarrow> (Inl e, st1)
                   | (None, st1) \<Rightarrow> (Inr True, st1))
                else (Inr False, st)
            | None \<Rightarrow> trials)
         else trials)"

text \<open>\<^verbatim>\<open>Interesting.interesting\<close>: lines 151 to 156 decide whether the call is
  skipped.\<close>

definition interesting :: "(nat \<Rightarrow> trial_obs) \<Rightarrow> call \<Rightarrow> oracle_state \<Rightarrow> bool outcome" where
  "interesting world c st =
     (if skip st \<noteq> 0 then
        (case skipped st of
           None \<Rightarrow> evaluate world c (st\<lparr>skipped := Some 0\<rparr>)
         | Some k \<Rightarrow>
             if k < skip st then (Inr False, st\<lparr>skipped := Some (k + 1)\<rparr>)
             else evaluate world c st)
      else evaluate world c st)"

section \<open>Notions used in the statements and proofs\<close>

text \<open>The local variables \<^verbatim>\<open>new_poll_timeout\<close> and \<^verbatim>\<open>new_iter_timeout\<close> of
  \<^verbatim>\<open>update_timeout\<close>.\<close>

definition new_poll_timeout :: "real \<Rightarrow> oracle_state \<Rightarrow> real" where
  "new_poll_timeout e st = max 10 (min (e * 1.5) (idle_timeout st))"

definition new_iter_timeout :: "real \<Rightarrow> oracle_state \<Rightarrow> real" where
  "new_iter_timeout e st = max 10 (min (e * 2) (iter_timeout st))"

text \<open>Two targets that differ at most in the countdown to the next relaunch, which a
  launch resets.\<close>

definition same_target :: "target \<Rightarrow> target \<Rightarrow> bool" where
  "same_target t t' \<longleftrightarrow> t' = t\<lparr>rl_countdown := rl_countdown t'\<rparr>"

text \<open>What no step of a trial changes, and the two timeouts, which no step raises.\<close>

definition steady :: "oracle_state \<Rightarrow> oracle_state \<Rightarrow> bool" where
  "steady st st' \<longleftrightarrow>
     ignore st' = ignore st \<and> same_target (target st) (target st')
     \<and> alt_crash_cb st' = alt_crash_cb st \<and> interesting_cb st' = interesting_cb st
     \<and> no_harness st' = no_harness st \<and> skip st' = skip st \<and> skipped st' = skipped st
     \<and> min_crashes st' = min_crashes st \<and> repeat st' = repeat st
     \<and> idle_poll st' = idle_poll st \<and> any_crash st' = any_crash st
     \<and> idle_threshold st' = idle_threshold st
     \<and> use_result_cache st' = use_result_cache st \<and> result_cache st' = result_cache st
     \<and> env_mod st' = env_mod st \<and> landing_page st' = landing_page st
     \<and> wwwdir st' = wwwdir st
     \<and> idle_timeout st' \<le> idle_timeout st \<and> iter_timeout st' \<le> iter_timeout st"

text \<open>Events that are neither the start of the monitor thread, nor the trial-done
  signal, nor the join, nor a call of the interesting-callback.\<close>

definition quiet :: "event list \<Rightarrow> bool" where
  "quiet evs \<longleftrightarrow>
     MonitorStart \<notin> set evs \<and> IterationDoneSet \<notin> set evs \<and> MonitorJoin \<notin> set evs
     \<and> (\<forall>q. InterestingCb q \<notin> set evs)"

text \<open>A step that leaves the history alone and only adds quiet events to the trace.\<close>

definition extends :: "oracle_state \<Rightarrow> oracle_state \<Rightarrow> bool" where
  "extends st st' \<longleftrightarrow> history st' = history st \<and> (\<exists>evs. trace st' = trace st @ evs \<and> quiet evs)"

text \<open>What no step of an evaluation changes, the cache apart.\<close>

definition calm :: "oracle_state \<Rightarrow> oracle_state \<Rightarrow> bool" where
  "calm st st' \<longleftrightarrow>
     ignore st' = ignore st \<and> same_target (target st) (target st')
     \<and> alt_crash_cb st' = alt_crash_cb st \<and> interesting_cb st' = interesting_cb st
     \<and> no_harness st' = no_harness st \<and> skip st' = skip st \<and> skipped st' = skipped st
     \<and> min_crashes st' = min_crashes st \<and> repeat st' = repeat st
     \<and> idle_poll st' = idle_poll st \<and> any_crash st' = any_crash st
     \<and> idle_threshold st' = idle_threshold st
     \<and> use_result_cache st' = use_result_cache st
     \<and> env_mod st' = env_mod st \<and> landing_page st' = landing_page st
     \<and> wwwdir st' = wwwdir st
     \<and> idle_timeout st' \<le> idle_timeout st \<and> iter_timeout st' \<le> iter_timeout st"

text \<open>The number of trials of a history that returned \<^verbatim>\<open>True\<close>.\<close>

definition crashes :: "(error + bool) list \<Rightarrow> int" where
  "crashes hs = int (length (filter (\<lambda>h. h = Inr True) hs))"

text \<open>The values of \<open>i\<close> that the loop over \<^verbatim>\<open>range(n)\<close> still has to take.\<close>

definition consecutive :: "int \<Rightarrow> int list \<Rightarrow> bool" where
  "consecutive n js \<longleftrightarrow> length js \<le> nat n \<and> js = map int [nat n - length js..<nat n]"

text \<open>What the loop of trials has done when it ends, entered with \<open>L\<close> values of \<open>i\<close>
  to come and \<open>nc\<close> crashes counted: the trials it ran, the events it added, and the
  cache.\<close>

definition loop_post :: "call \<Rightarrow> nat \<Rightarrow> int \<Rightarrow> oracle_state \<Rightarrow> bool outcome \<Rightarrow> bool" where
  "loop_post c L nc st out \<longleftrightarrow>
     (\<exists>hs evs. history (snd out) = history st @ hs \<and> trace (snd out) = trace st @ evs
        \<and> length hs \<le> L
        \<and> (\<forall>j<length hs. min_crashes st - (nc + crashes (take j hs)) \<le> int L - int j)
        \<and> (fst out = Inr True \<longrightarrow>
              hs \<noteq> [] \<and> last hs = Inr True \<and> min_crashes st \<le> nc + crashes hs
              \<and> (nc + crashes (butlast hs) < min_crashes st \<or> crashes (butlast hs) = 0)
              \<and> result_cache (snd out)
                  = (if use_result_cache st
                     then (result_cache st)(cache_key c \<mapsto> (True, temp_prefix c))
                     else result_cache st)
              \<and> (interesting_cb st \<longrightarrow> evs \<noteq> [] \<and> last evs = InterestingCb (temp_prefix c)))
        \<and> (fst out = Inr False \<longrightarrow>
              (nc + crashes hs < min_crashes st \<or> crashes hs = 0)
              \<and> (length hs = L \<or> int L - int (length hs) < min_crashes st - (nc + crashes hs))
              \<and> list_all (\<lambda>h. h = Inr True \<or> h = Inr False) hs
              \<and> result_cache (snd out)
                  = (if use_result_cache st
                     then (result_cache st)(cache_key c \<mapsto> (False, temp_prefix c))
                     else result_cache st))
        \<and> (\<forall>e. fst out = Inl e \<longrightarrow>
              hs \<noteq> [] \<and> last hs = Inl e \<and> result_cache (snd out) = result_cache st)
        \<and> (\<forall>q. InterestingCb q \<in> set evs
              \<longleftrightarrow> q = temp_prefix c \<and> fst out = Inr True \<and> interesting_cb st))"

text \<open>A target with a prefs file, which \<^verbatim>\<open>PuppetTarget.launch\<close> asks for, and the
  target as a call of \<^verbatim>\<open>PuppetTarget.launch\<close> leaves it.\<close>

definition has_prefs :: "target \<Rightarrow> bool" where
  "has_prefs tgt = (case prefs tgt of None \<Rightarrow> False | Some pj \<Rightarrow> pj \<noteq> [])"

definition launched :: "target \<Rightarrow> target" where
  "launched tgt = (if has_prefs tgt then tgt\<lparr>rl_countdown := rl_reset tgt\<rparr> else tgt)"





text \<open>The driver's calls of \<^verbatim>\<open>interesting\<close> one after the other, up to the first that
  raises.\<close>

fun session ::
  "(nat \<Rightarrow> trial_obs) \<Rightarrow> call list \<Rightarrow> oracle_state \<Rightarrow> (error + bool) list \<times> oracle_state" where
  "session world [] st = ([], st)"
| "session world (c # cs) st =
     (case interesting world c st of
        (Inl e, st1) \<Rightarrow> ([Inl e], st1)
      | (Inr b, st1) \<Rightarrow> (let (rs, st2) = session world cs st1 in (Inr b # rs, st2)))"

text \<open>The replay of a cached result. The destination of a path under the new prefix
  is the new prefix, an underscore, and what follows the first underscore of the base
  name of the path. A file is copied by \<^verbatim>\<open>shutil.copy\<close> and any other entry that is
  copied by \<^verbatim>\<open>shutil.copytree\<close>. An entry is copied without an exception when it is a
  file, or a directory whose destination is not among the existing directories.\<close>

definition destination :: "string \<Rightarrow> string \<Rightarrow> string" where
  "destination new_prefix path =
     new_prefix @ ''_'' @ tl (dropWhile (\<lambda>ch. ch \<noteq> CHR ''_'') (basename path))"

definition copy_call :: "string \<Rightarrow> string \<times> entry_kind \<Rightarrow> event" where
  "copy_call new_prefix entry =
     (case entry of (path, kind) \<Rightarrow>
        if kind = File then Copy path (destination new_prefix path)
        else CopyTree path (destination new_prefix path))"

definition copied :: "string \<Rightarrow> string set \<Rightarrow> string \<times> entry_kind \<Rightarrow> bool" where
  "copied new_prefix existing entry =
     (case entry of (path, kind) \<Rightarrow>
        kind = File \<or> kind = Directory \<and> destination new_prefix path \<notin> existing)"

text \<open>What \<^verbatim>\<open>os.listdir\<close> can answer: names without a slash, each once.\<close>

definition listed :: "(string \<times> entry_kind) list \<Rightarrow> bool" where
  "listed l \<longleftrightarrow> distinct (map fst l) \<and> list_all (\<lambda>(name, kind). CHR ''/'' \<notin> set name) l"

text \<open>The directory that \<^verbatim>\<open>glob\<close> lists for a prefix.\<close>

definition listed_dir :: "string \<Rightarrow> string" where
  "listed_dir cached_prefix = (if dirname cached_prefix = [] then ''.'' else dirname cached_prefix)"

text \<open>A reading with no CPU sample at or above the threshold.\<close>

definition below :: "real \<Rightarrow> tick \<Rightarrow> bool" where
  "below threshold t \<longleftrightarrow> \<not> list_ex (\<lambda>(pid, cpu). cpu \<ge> threshold) (cpu_usage t)"

text \<open>A reading at which a poll that started at \<open>start_time\<close> goes on: inside the
  window, every sample below the threshold, the target running.\<close>

definition polling :: "real \<Rightarrow> real \<Rightarrow> real \<Rightarrow> tick \<Rightarrow> bool" where
  "polling threshold interval start_time t \<longleftrightarrow>
     now t - start_time < interval \<and> below threshold t \<and> running t"

text \<open>The readings of one whole poll that answers idle: the reading of the start time,
  readings at which the poll goes on, and a last reading that is outside the window,
  or inside it with every sample below the threshold and the target no longer
  running.\<close>

fun answers_idle :: "real \<Rightarrow> real \<Rightarrow> tick list \<Rightarrow> bool" where
  "answers_idle threshold interval [] = False"
| "answers_idle threshold interval (start # later) =
     (later \<noteq> []
      \<and> list_all (polling threshold interval (now start)) (butlast later)
      \<and> (interval \<le> now (last later) - now start
         \<or> now (last later) - now start < interval \<and> below threshold (last later)
            \<and> \<not> running (last later)))"

text \<open>The readings of one whole poll that answers busy: the last reading is inside the
  window and has a sample at or above the threshold.\<close>

fun answers_busy :: "real \<Rightarrow> real \<Rightarrow> tick list \<Rightarrow> bool" where
  "answers_busy threshold interval [] = False"
| "answers_busy threshold interval (start # later) =
     (later \<noteq> []
      \<and> list_all (polling threshold interval (now start)) (butlast later)
      \<and> now (last later) - now start < interval \<and> \<not> below threshold (last later))"

text \<open>The readings of one round of the monitor that goes on to the next: the trial-done
  event is read as unset, and the poll answers busy.\<close>

fun busy_round :: "real \<Rightarrow> real \<Rightarrow> tick list \<Rightarrow> bool" where
  "busy_round threshold interval [] = False"
| "busy_round threshold interval (check # poll) =
     (\<not> iteration_done check \<and> answers_busy threshold interval poll)"

text \<open>The readings of the wait before the first poll: a first reading of the clock,
  readings before the expiry time with the trial-done event unset, and a reading after
  the expiry time or with the event set.\<close>

fun waited :: "real \<Rightarrow> tick list \<Rightarrow> bool" where
  "waited timeout [] = False"
| "waited timeout (t0 # later) =
     (later \<noteq> []
      \<and> list_all (\<lambda>x. now x \<le> now t0 + timeout \<and> \<not> iteration_done x) (butlast later)
      \<and> (now t0 + timeout < now (last later) \<or> iteration_done (last later)))"

text \<open>Readings of an event that, once set, stays set: \<^verbatim>\<open>iteration_done_event\<close> is
  never cleared.\<close>

fun sticky :: "tick list \<Rightarrow> bool" where
  "sticky [] = True"
| "sticky (t # ts) = ((\<not> iteration_done t \<or> list_all iteration_done ts) \<and> sticky ts)"

section \<open>Concrete inputs\<close>

text \<open>A target, an oracle as its constructor leaves it, and a few things the world can
  do during a trial; the closed instances of the theorems below are stated on them.\<close>

definition demo_target :: target where
  "demo_target =
     \<lparr>expect_close = False, platform_system = ''Linux'', prefs = Some ''prefs.js'',
      binary = ''firefox'', extension = None, launch_timeout = 300, log_limit = 0,
      memory_limit = 0, rl_countdown = 0, rl_reset = 1,
      derives_LaunchError = (\<lambda>cls. False)\<rparr>"

definition demo_state :: oracle_state where
  "demo_state =
     \<lparr>ignore = [], target = demo_target, server = None, orig_sig = None,
      alt_crash_cb = True, interesting_cb = True, iter_timeout = 60, no_harness = False,
      skip = 0, skipped = None, min_crashes = 1, repeat = 1, idle_poll = 3,
      any_crash = False, idle_threshold = 25, idle_timeout = 60, use_result_cache = True,
      result_cache = Map.empty, env_mod = None, landing_page = ''test.html'',
      wwwdir = Some ''/tmp/tc'', made = {}, trace = [], history = []\<rparr>"

definition crashed_puppet :: puppet_obs where
  "crashed_puppet =
     \<lparr>is_healthy = False, is_running = False, reason = Some RC_ALERT,
      available_logs = [''stderr'', ''stdout'']\<rparr>"

definition healthy_puppet :: puppet_obs where
  "healthy_puppet =
     \<lparr>is_healthy = True, is_running = True, reason = None,
      available_logs = [''stderr'', ''stdout'']\<rparr>"

definition demo_crash :: "string \<Rightarrow> crash_info" where
  "demo_crash name =
     \<lparr>short_signature = ''[@ '' @ name @ '']'',
      crash_signature = (\<lambda>frames. name),
      matched_by = (\<lambda>sig. sig = name)\<rparr>"

text \<open>A trial in which the target is launched at once and crashes in the named
  function after five seconds, and one in which nothing happens to it.\<close>

definition crash_obs :: "string \<Rightarrow> trial_obs" where
  "crash_obs name =
     \<lparr>target_closed = True, port = 8000, puppet_launch = (\<lambda>k. None),
      serve = Inr SERVED_ALL, puppet = crashed_puppet, detect_error = None,
      mkdir_error = None, save_logs_error = None, report = Inr (demo_crash name), alt_cb_error = None,
      relaunch_error = None, elapsed = 5\<rparr>"

definition calm_obs :: trial_obs where
  "calm_obs =
     \<lparr>target_closed = False, port = 8000, puppet_launch = (\<lambda>k. None),
      serve = Inr SERVED_ALL, puppet = healthy_puppet, detect_error = None,
      mkdir_error = None, save_logs_error = None, report = Inr (demo_crash ''none''), alt_cb_error = None,
      relaunch_error = None, elapsed = 5\<rparr>"

definition demo_call :: "string \<Rightarrow> string \<Rightarrow> call" where
  "demo_call prefix key =
     \<lparr>temp_prefix = prefix, cache_key = key, listdir = (\<lambda>d. []), wildcard_glob = []\<rparr>"



text \<open>A world in which the second trial of the session finds nothing and every other
  trial crashes in \<open>f\<close>.\<close>

definition demo_world :: "nat \<Rightarrow> trial_obs" where
  "demo_world i = (if i = 1 then calm_obs else crash_obs ''f'')"

text \<open>An oracle whose cache holds an interesting result under the key \<open>k1\<close>, after
  a call whose trial saved its logs under the prefix.\<close>

definition cached_state :: "string \<Rightarrow> oracle_state" where
  "cached_state prefix =
     demo_state\<lparr>result_cache := [''k1'' \<mapsto> (True, prefix)], made := {prefix @ ''_logs''}\<rparr>"

text \<open>A call for the content \<open>k1\<close> with a listing of the directory \<^verbatim>\<open>out\<close>.\<close>

definition listing_call :: "string \<Rightarrow> (string \<times> entry_kind) list \<Rightarrow> call" where
  "listing_call prefix names =
     \<lparr>temp_prefix = prefix, cache_key = ''k1'',
      listdir = (\<lambda>d. if d = ''out'' then names else []), wildcard_glob = []\<rparr>"

text \<open>A reading of the clock, of one process's CPU usage, of whether the target runs and
  of the trial-done event.\<close>

definition reading :: "real \<Rightarrow> real \<Rightarrow> bool \<Rightarrow> bool \<Rightarrow> tick" where
  "reading time cpu alive stop =
     \<lparr>now = time, cpu_usage = [(1, cpu)], running = alive, iteration_done = stop\<rparr>"

section \<open>What the steps of a trial preserve\<close>

lemma same_target_refl: "same_target t t"
  by (simp add: same_target_def)

lemma same_target_trans: "same_target a b \<Longrightarrow> same_target b c \<Longrightarrow> same_target a c"
  unfolding same_target_def by (cases a; cases b; cases c) simp

lemma steady_refl: "steady st st"
  by (simp add: steady_def same_target_refl)

lemma steady_trans: "steady a b \<Longrightarrow> steady b c \<Longrightarrow> steady a c"
  unfolding steady_def by (auto intro: same_target_trans)

lemma extends_refl: "extends st st"
  by (simp add: extends_def quiet_def)

lemma extends_trans: "extends a b \<Longrightarrow> extends b c \<Longrightarrow> extends a c"
  by (auto simp: extends_def quiet_def)

lemma log_event_steady: "steady st (log_event evs st)"
  by (simp add: steady_def log_event_def same_target_refl)

lemma log_event_extends: "quiet evs \<Longrightarrow> extends st (log_event evs st)"
  by (auto simp: extends_def log_event_def)

lemma update_timeout_eq:
  "update_timeout e st =
     st\<lparr>idle_timeout := (if new_poll_timeout e st < idle_timeout st
                          then new_poll_timeout e st else idle_timeout st),
        iter_timeout := (if new_iter_timeout e st < iter_timeout st
                          then new_iter_timeout e st else iter_timeout st),
        server := (if new_iter_timeout e st < iter_timeout st then None else server st),
        trace := (if new_iter_timeout e st < iter_timeout st \<and> server st \<noteq> None
                   then trace st @ [ServerClose] else trace st)\<rparr>"
proof -
  define v where "v = new_poll_timeout e st"
  define st1 where "st1 = (if v < idle_timeout st then st\<lparr>idle_timeout := v\<rparr> else st)"
  define w where "w = new_iter_timeout e st"
  have w1: "max 10 (min (e * 2) (iter_timeout st1)) = w"
    unfolding w_def new_iter_timeout_def st1_def by simp
  have u: "update_timeout e st =
      (if w < iter_timeout st1 then
         (case server (st1\<lparr>iter_timeout := w\<rparr>) of
            None \<Rightarrow> st1\<lparr>iter_timeout := w\<rparr>
          | Some t \<Rightarrow> st1\<lparr>iter_timeout := w, server := None,
                          trace := trace (st1\<lparr>iter_timeout := w\<rparr>) @ [ServerClose]\<rparr>)
       else st1)"
    unfolding update_timeout_def Let_def w1 [symmetric]
    unfolding st1_def v_def new_poll_timeout_def by simp
  show ?thesis
    unfolding u v_def [symmetric] w_def [symmetric]
    unfolding st1_def
    by (cases "server st"; cases "v < idle_timeout st"; cases "w < iter_timeout st"; simp)
qed

lemma update_timeout_steady: "steady st (update_timeout e st)"
  unfolding update_timeout_eq by (simp add: steady_def same_target_refl)

lemma update_timeout_extends: "extends st (update_timeout e st)"
  unfolding update_timeout_eq by (simp add: extends_def quiet_def)

lemma update_timeout_orig_sig: "orig_sig (update_timeout e st) = orig_sig st"
  unfolding update_timeout_eq by simp

lemma ensure_server_steady: "steady st (ensure_server st)"
  by (auto simp: ensure_server_def Let_def steady_def log_event_def same_target_refl
      split: option.splits)

lemma ensure_server_extends: "extends st (ensure_server st)"
  by (auto simp: ensure_server_def Let_def extends_def quiet_def log_event_def split: option.splits)

lemma launch_same_target:
  "launch tgt loc em out = (r, tgt1, calls) \<Longrightarrow> same_target tgt tgt1"
  unfolding launch_def Let_def same_target_def
  by (auto split: option.splits if_splits puppet_exception.splits)

lemma quiet_launch: "quiet (TargetLaunch loc # map TargetCall calls)"
  by (auto simp: quiet_def)

lemma launch_loop_frame:
  "steady st (snd (launch_loop n k obs st)) \<and> extends st (snd (launch_loop n k obs st))"
proof (induction n arbitrary: k st)
  case 0
  show ?case by (simp add: steady_refl extends_refl)
next
  case (Suc n)
  define loc where "loc = location (port obs) st"
  obtain r tgt1 calls where l: "launch (target st) loc (env_mod st) (puppet_launch obs k) = (r, tgt1, calls)"
    by (cases "launch (target st) loc (env_mod st) (puppet_launch obs k)")
  define st1 where "st1 = log_event (TargetLaunch loc # map TargetCall calls) (st\<lparr>target := tgt1\<rparr>)"
  have s1: "steady st st1"
    using launch_same_target [OF l] by (simp add: st1_def steady_def log_event_def)
  have e1: "extends st st1"
    using quiet_launch [of loc calls] by (auto simp: st1_def extends_def log_event_def)
  define st2 where "st2 = log_event [Sleep 15] st1"
  have s2: "steady st st2" unfolding st2_def by (rule steady_trans [OF s1 log_event_steady])
  have e2: "extends st st2"
    unfolding st2_def by (rule extends_trans [OF e1 log_event_extends]) (simp add: quiet_def)
  have s3: "steady st (snd (launch_loop n (Suc k) obs st2))"
    using steady_trans [OF s2] Suc.IH by blast
  have e3: "extends st (snd (launch_loop n (Suc k) obs st2))"
    using extends_trans [OF e2] Suc.IH by blast
  have "snd (launch_loop (Suc n) k obs st) = st1
        \<or> snd (launch_loop (Suc n) k obs st) = snd (launch_loop n (Suc k) obs st2)"
    by (simp add: loc_def [symmetric] l st1_def [symmetric] st2_def [symmetric] split: option.splits)
  then show ?case using s1 e1 s3 e3 by auto
qed

lemma relaunch_steady: "steady st (snd (relaunch obs st))"
  by (simp add: relaunch_def steady_refl launch_loop_frame)

lemma relaunch_extends: "extends st (snd (relaunch obs st))"
  by (simp add: relaunch_def extends_refl launch_loop_frame)

lemma serve_testcase_steady: "steady st (snd (serve_testcase obs st))"
  by (simp add: serve_testcase_def log_event_steady)

lemma serve_testcase_extends: "extends st (snd (serve_testcase obs st))"
  by (simp add: serve_testcase_def log_event_extends quiet_def)

lemma save_logs_steady: "steady st (snd (save_logs p obs st))"
  by (simp add: save_logs_def Let_def steady_def log_event_def same_target_refl
      split: option.splits)

lemma save_logs_extends: "extends st (snd (save_logs p obs st))"
  by (simp add: save_logs_def Let_def extends_def log_event_def quiet_def split: option.splits)

lemma judge_crash_steady: "steady st (snd (judge_crash p obs crash st))"
proof -
  have a: "steady st (st\<lparr>orig_sig := x\<rparr>)" for x
    by (simp add: steady_def same_target_refl)
  show ?thesis
    unfolding judge_crash_def Let_def
    by (auto simp: steady_refl log_event_steady update_timeout_steady
        intro: steady_trans [OF a update_timeout_steady] split: option.splits)
qed

lemma judge_crash_extends: "extends st (snd (judge_crash p obs crash st))"
proof -
  have a: "extends st (st\<lparr>orig_sig := x\<rparr>)" for x
    by (simp add: extends_def quiet_def)
  show ?thesis
    unfolding judge_crash_def Let_def
    by (auto simp: extends_refl log_event_extends update_timeout_extends quiet_def
        intro: extends_trans [OF a update_timeout_extends] split: option.splits)
qed


lemma handle_status_steady: "steady st (snd (handle_status p obs fd st))"
proof (cases fd)
  case RESULT_NONE
  then show ?thesis by (simp add: handle_status_def steady_refl)
next
  case RESULT_IGNORED
  then show ?thesis
    using save_logs_steady [of st p obs]
    by (auto simp: handle_status_def split: prod.splits sum.splits)
next
  case RESULT_FAILURE
  obtain r1 st1 where s: "save_logs p obs st = (r1, st1)" by (cases "save_logs p obs st")
  have a: "steady st st1" using save_logs_steady [of st p obs] s by simp
  have b: "steady st (log_event evs st1)" for evs
    using steady_trans [OF a log_event_steady] .
  have c: "steady st (snd (judge_crash p obs crash (log_event evs st1)))" for evs crash
    using steady_trans [OF b judge_crash_steady] .
  show ?thesis
    using RESULT_FAILURE s a b c
    by (auto simp: handle_status_def Let_def split: sum.splits)
qed

lemma handle_status_extends: "extends st (snd (handle_status p obs fd st))"
proof (cases fd)
  case RESULT_NONE
  then show ?thesis by (simp add: handle_status_def extends_refl)
next
  case RESULT_IGNORED
  then show ?thesis
    using save_logs_extends [of st p obs]
    by (auto simp: handle_status_def split: prod.splits sum.splits)
next
  case RESULT_FAILURE
  obtain r1 st1 where s: "save_logs p obs st = (r1, st1)" by (cases "save_logs p obs st")
  have a: "extends st st1" using save_logs_extends [of st p obs] s by simp
  have b: "extends st (log_event [CreateCrashInfo x] st1)" for x
    using extends_trans [OF a log_event_extends] by (simp add: quiet_def)
  have c: "extends st (snd (judge_crash p obs crash (log_event [CreateCrashInfo x] st1)))" for x crash
    using extends_trans [OF b judge_crash_extends] .
  show ?thesis
    using RESULT_FAILURE s a b c
    by (auto simp: handle_status_def Let_def split: sum.splits)
qed

lemma quiet_detect: "quiet (DetectFailure b # map TargetCall calls)"
  by (auto simp: quiet_def)

lemma serve_and_classify_steady:
  "steady st (snd (serve_and_classify p obs st))"
proof -
  define st1 where "st1 = log_event [MonitorStart] st"
  have a: "steady st st1" unfolding st1_def by (rule log_event_steady)
  obtain r2 st2 where s2: "serve_testcase obs st1 = (r2, st2)" by (cases "serve_testcase obs st1")
  have b: "steady st st2"
    using steady_trans [OF a serve_testcase_steady [of st1 obs]] s2 by simp
  have c: "steady st (log_event evs st2)" for evs
    using steady_trans [OF b log_event_steady] .
  have d: "steady st b" if "handle_status p obs fd (log_event evs st2) = (a, b)" for evs fd a b
    using steady_trans [OF c handle_status_steady] that by (metis snd_conv)
  have e: "steady st (log_event evs' b)"
    if "handle_status p obs fd (log_event evs st2) = (a, b)" for evs evs' fd a b
    using steady_trans [OF d [OF that] log_event_steady] .
  show ?thesis
    unfolding serve_and_classify_def Let_def st1_def [symmetric] s2
    using b c
    by (auto split: sum.splits prod.splits option.splits intro: d e)
qed

lemma serve_and_classify_extends:
  "extends (log_event [MonitorStart] st) (snd (serve_and_classify p obs st))"
proof -
  define st1 where "st1 = log_event [MonitorStart] st"
  obtain r2 st2 where s2: "serve_testcase obs st1 = (r2, st2)" by (cases "serve_testcase obs st1")
  have b: "extends st1 st2"
    using serve_testcase_extends [of st1 obs] s2 by simp
  have c: "extends st1 (log_event (DetectFailure x # map TargetCall calls) st2)" for x calls
    using extends_trans [OF b log_event_extends [OF quiet_detect]] .
  have d: "extends st1 b"
    if "handle_status p obs fd (log_event (DetectFailure x # map TargetCall calls) st2) = (a, b)"
    for x calls fd a b
    using extends_trans [OF c handle_status_extends] that by (metis snd_conv)
  have e: "extends st1 (log_event [CheckRelaunch] b)"
    if "handle_status p obs fd (log_event (DetectFailure x # map TargetCall calls) st2) = (a, b)"
    for x calls fd a b
    using extends_trans [OF d [OF that] log_event_extends] by (simp add: quiet_def)
  show ?thesis
    unfolding serve_and_classify_def Let_def st1_def [symmetric] s2
    using b c
    by (auto split: sum.splits prod.splits option.splits intro: d e)
qed


lemma run_steady:
  assumes "run p obs st = (r, st')"
  shows "steady st st'"
proof -
  define st0 where "st0 = ensure_server st"
  have a: "steady st st0" unfolding st0_def by (rule ensure_server_steady)
  obtain r1 st1 where l: "relaunch obs st0 = (r1, st1)" by (cases "relaunch obs st0")
  have b: "steady st st1" using steady_trans [OF a relaunch_steady [of st0 obs]] l by simp
  obtain r2 st2 where t: "serve_and_classify p obs st1 = (r2, st2)"
    by (cases "serve_and_classify p obs st1")
  have c: "steady st st2"
    using steady_trans [OF b serve_and_classify_steady [of st1 p obs]] t by simp
  have d: "steady st (log_event evs st2)" for evs
    using steady_trans [OF c log_event_steady] .
  have e: "steady x (x\<lparr>history := h\<rparr>)" for x h
    by (simp add: steady_def same_target_refl)
  have "steady st (st1\<lparr>history := h\<rparr>)" for h using steady_trans [OF b e] .
  moreover have "steady st ((log_event evs st2)\<lparr>history := h\<rparr>)" for evs h
    using steady_trans [OF d e] .
  ultimately show ?thesis
    using assms unfolding run_def Let_def st0_def [symmetric] l
    by (cases r1) (auto simp: t)
qed

lemma run_history:
  assumes "run p obs st = (r, st')"
  shows "history st' = history st @ [r]"
proof -
  define st0 where "st0 = ensure_server st"
  have a: "extends st st0" unfolding st0_def by (rule ensure_server_extends)
  obtain r1 st1 where l: "relaunch obs st0 = (r1, st1)" by (cases "relaunch obs st0")
  have b: "extends st st1" using extends_trans [OF a relaunch_extends [of st0 obs]] l by simp
  obtain r2 st2 where t: "serve_and_classify p obs st1 = (r2, st2)"
    by (cases "serve_and_classify p obs st1")
  have c: "extends (log_event [MonitorStart] st1) st2"
    using serve_and_classify_extends [of st1 p obs] t by simp
  have h1: "history st1 = history st" using b by (simp add: extends_def)
  have h2: "history st2 = history st" using c h1 by (simp add: extends_def log_event_def)
  show ?thesis
    using assms h1 h2 unfolding run_def Let_def st0_def [symmetric] l
    by (cases r1) (auto simp: t log_event_def)
qed

lemma run_trace_after_server:
  assumes "run p obs st = (r, st')"
  shows "\<exists>evs. trace st' = trace (ensure_server st) @ evs"
proof -
  define st0 where "st0 = ensure_server st"
  obtain r1 st1 where l: "relaunch obs st0 = (r1, st1)" by (cases "relaunch obs st0")
  have b: "extends st0 st1" using relaunch_extends [of st0 obs] l by simp
  obtain r2 st2 where t: "serve_and_classify p obs st1 = (r2, st2)"
    by (cases "serve_and_classify p obs st1")
  have c: "extends (log_event [MonitorStart] st1) st2"
    using serve_and_classify_extends [of st1 p obs] t by simp
  from b obtain e1 where e1: "trace st1 = trace st0 @ e1" by (auto simp: extends_def)
  from c obtain e2 where e2: "trace st2 = trace st1 @ [MonitorStart] @ e2"
    by (auto simp: extends_def log_event_def)
  show ?thesis
    using assms e1 e2 unfolding run_def Let_def st0_def [symmetric] l
    by (cases r1) (auto simp: t log_event_def)
qed

lemma run_builds_server:
  assumes "run p obs st = (r, st')" and "server st = None"
  shows "\<exists>evs. trace st' = trace st
           @ ServerCreate (if no_harness st then iter_timeout st else iter_timeout st + 10) # evs"
proof -
  have "\<exists>evs. trace (ensure_server st) = trace st
           @ ServerCreate (if no_harness st then iter_timeout st else iter_timeout st + 10) # evs"
    using assms(2) by (simp add: ensure_server_def Let_def log_event_def)
  then show ?thesis
    using run_trace_after_server [OF assms(1)] by auto
qed

section \<open>What an evaluation preserves\<close>

lemma calm_refl: "calm st st"
  by (simp add: calm_def same_target_refl)

lemma calm_trans: "calm a b \<Longrightarrow> calm b c \<Longrightarrow> calm a c"
  unfolding calm_def by (auto intro: same_target_trans)

lemma steady_calm: "steady a b \<Longrightarrow> calm a b"
  by (simp add: steady_def calm_def)

lemma store_calm: "calm st (store c v st)"
  by (simp add: store_def calm_def same_target_refl)

lemma log_event_calm: "calm st (log_event evs st)"
  by (simp add: calm_def log_event_def same_target_refl)

lemma finish_true_calm: "finish_true c st = (r, st') \<Longrightarrow> calm st st'"
  using store_calm [of st c True] calm_trans [OF log_event_calm store_calm]
  by (auto simp: finish_true_def)

lemma finish_false_calm: "finish_false c st = (r, st') \<Longrightarrow> calm st st'"
  using store_calm [of st c False] by (auto simp: finish_false_def)

lemma run_calm: "run p obs st = (r, st') \<Longrightarrow> calm st st'"
  by (rule steady_calm [OF run_steady])

lemma trial_loop_calm:
  "trial_loop world c n js nc st = (r, st') \<Longrightarrow> calm st st'"
proof (induction js arbitrary: nc st)
  case Nil
  then show ?case by (simp add: finish_false_calm)
next
  case (Cons i js)
  show ?case
  proof (cases "n - i < min_crashes st - nc")
    case True
    then show ?thesis using Cons.prems by (simp add: finish_false_calm)
  next
    case False
    obtain r1 st1 where r: "run (temp_prefix c) (world (runs st)) st = (r1, st1)"
      by (cases "run (temp_prefix c) (world (runs st)) st")
    have c1: "calm st st1" using run_calm [OF r] .
    show ?thesis
    proof (cases r1)
      case (Inl e)
      then show ?thesis using Cons.prems False r c1 by simp
    next
      case (Inr b)
      show ?thesis
      proof (cases b)
        case True
        show ?thesis
        proof (cases "nc + 1 \<ge> min_crashes st1")
          case True
          then have "finish_true c st1 = (r, st')"
            using Cons.prems False r Inr \<open>b\<close> by simp
          then show ?thesis using calm_trans [OF c1 finish_true_calm] by simp
        next
          case False
          then have "trial_loop world c n js (nc + 1) st1 = (r, st')"
            using Cons.prems \<open>\<not> n - i < min_crashes st - nc\<close> r Inr \<open>b\<close> by simp
          then show ?thesis using calm_trans [OF c1 Cons.IH] by simp
        qed
      next
        case False
        then have "trial_loop world c n js nc st1 = (r, st')"
          using Cons.prems \<open>\<not> n - i < min_crashes st - nc\<close> r Inr by simp
        then show ?thesis using calm_trans [OF c1 Cons.IH] by simp
      qed
    qed
  qed
qed

lemma replay_calm: "calm st (snd (replay p entries st))"
proof (induction entries arbitrary: st)
  case Nil
  show ?case by (simp add: calm_refl)
next
  case (Cons entry entries)
  obtain filename kind where entry: "entry = (filename, kind)" by (cases entry)
  have a: "calm st (snd (replay p entries (log_event evs st)))" for evs
    using calm_trans [OF log_event_calm Cons.IH] .
  have b: "calm st ((log_event evs st)\<lparr>made := m\<rparr>)" for evs m
    by (simp add: calm_def log_event_def same_target_refl)
  have c: "calm st (snd (replay p entries ((log_event evs st)\<lparr>made := m\<rparr>)))" for evs m
    using calm_trans [OF b Cons.IH] .
  show ?case
    unfolding entry
    by (cases kind) (auto simp: Let_def calm_refl log_event_calm a c split: option.splits)
qed

lemma evaluate_calm: "evaluate world c st = (r, st') \<Longrightarrow> calm st st'"
proof -
  have a: "calm st b" if "replay p entries st = (x, b)" for p entries x b
    using replay_calm [of st p entries] that by simp
  assume "evaluate world c st = (r, st')"
  then show ?thesis
    unfolding evaluate_def Let_def
    by (auto split: if_splits option.splits prod.splits simp: calm_refl
        dest: trial_loop_calm a)
qed

lemma interesting_timeouts:
  assumes "interesting world c st = (r, st')"
  shows "idle_timeout st' \<le> idle_timeout st \<and> iter_timeout st' \<le> iter_timeout st"
proof -
  have a: "evaluate world c st = (r, st') \<Longrightarrow> ?thesis"
    using evaluate_calm [of world c st r st'] by (simp add: calm_def)
  have b: "evaluate world c (st\<lparr>skipped := x\<rparr>) = (r, st') \<Longrightarrow> ?thesis" for x
    using evaluate_calm [of world c "st\<lparr>skipped := x\<rparr>" r st'] by (simp add: calm_def)
  show ?thesis
    using assms a b unfolding interesting_def
    by (auto split: if_splits option.splits)
qed

section \<open>Evaluating the model on concrete inputs\<close>

lemma launch_loop_4:
  "launch_loop 4 k obs st = launch_loop (Suc (Suc (Suc (Suc 0)))) k obs st"
  by (simp add: numeral_eq_Suc)

lemmas trial_defs = launch_loop_4 run_def ensure_server_def relaunch_def launch_def
  serve_and_classify_def serve_testcase_def
  handle_status_def save_logs_def judge_crash_def log_event_def location_def trunc_def
  detect_failure_def update_timeout_def Let_def

lemmas demo_defs = demo_state_def demo_target_def crash_obs_def calm_obs_def crashed_puppet_def
  healthy_puppet_def demo_crash_def demo_call_def

lemma replicate_4: "replicate 4 x = [x, x, x, x]"
  by (simp add: numeral_eq_Suc)

lemma replicate_2: "replicate 2 x = [x, x]"
  by (simp add: numeral_eq_Suc)

lemma py_range_values: "py_range 1 = [0]" "py_range 2 = [0, 1]" "py_range 3 = [0, 1, 2]"
  by (simp_all add: py_range_def upt_rec)

lemmas call_defs = interesting_def evaluate_def finish_true_def finish_false_def store_def
  runs_def py_range_values

lemmas replay_defs = glob_def has_magic_def join_def dirname_def basename_def split1_def
  cached_state_def listing_call_def listed_dir_def listed_def copied_def copy_call_def
  destination_def

section \<open>Failure classification\<close>

text \<open>Claim C3. \<^verbatim>\<open>detect_failure(ignored, was_timeout)\<close> returns None when the target
  is healthy and there was no timeout; for an unhealthy target, None when the exit
  reason is a close request or a self exit, Ignored when the reason is a worker
  (resource limit) exit whose category, \<^verbatim>\<open>memory\<close> or \<^verbatim>\<open>log-limit\<close>, is in the ignore
  set and whose log is among the available logs, and Failure for every other exit; for
  a timeout of a healthy target, Ignored when \<^verbatim>\<open>timeout\<close> is in the ignore set and
  Failure otherwise.\<close>

theorem detect_failure_classifies:
  "(is_healthy p \<and> \<not> was_timeout \<longrightarrow>
      fst (detect_failure tgt ignored was_timeout p) = RESULT_NONE)
   \<and> (\<not> is_healthy p \<and> (reason p = Some RC_CLOSED \<or> reason p = Some RC_EXITED) \<longrightarrow>
      fst (detect_failure tgt ignored was_timeout p) = RESULT_NONE)
   \<and> (\<not> is_healthy p \<and> reason p = Some RC_WORKER
        \<and> (''memory'' \<in> set ignored \<and> ''ffp_worker_memory_usage'' \<in> set (available_logs p)
           \<or> ''log-limit'' \<in> set ignored \<and> ''ffp_worker_log_size'' \<in> set (available_logs p)) \<longrightarrow>
      fst (detect_failure tgt ignored was_timeout p) = RESULT_IGNORED)
   \<and> (\<not> is_healthy p \<and> reason p \<noteq> Some RC_CLOSED \<and> reason p \<noteq> Some RC_EXITED
        \<and> \<not> (reason p = Some RC_WORKER
             \<and> (''memory'' \<in> set ignored \<and> ''ffp_worker_memory_usage'' \<in> set (available_logs p)
                \<or> ''log-limit'' \<in> set ignored \<and> ''ffp_worker_log_size'' \<in> set (available_logs p))) \<longrightarrow>
      fst (detect_failure tgt ignored was_timeout p) = RESULT_FAILURE)
   \<and> (is_healthy p \<and> was_timeout \<longrightarrow>
      fst (detect_failure tgt ignored was_timeout p)
        = (if ''timeout'' \<in> set ignored then RESULT_IGNORED else RESULT_FAILURE))"
  unfolding detect_failure_def Let_def by auto

theorem detect_failure_classifies_witness:
  "fst (detect_failure demo_target [] False healthy_puppet) = RESULT_NONE
   \<and> fst (detect_failure demo_target [] False (crashed_puppet\<lparr>reason := Some RC_EXITED\<rparr>))
        = RESULT_NONE
   \<and> fst (detect_failure demo_target [''memory''] False
        (crashed_puppet\<lparr>reason := Some RC_WORKER,
           available_logs := [''stderr'', ''ffp_worker_memory_usage'']\<rparr>)) = RESULT_IGNORED
   \<and> fst (detect_failure demo_target [''memory''] False crashed_puppet) = RESULT_FAILURE
   \<and> fst (detect_failure demo_target [''timeout''] True healthy_puppet) = RESULT_IGNORED
   \<and> fst (detect_failure demo_target [] True healthy_puppet) = RESULT_FAILURE"
  using
    detect_failure_classifies [of healthy_puppet False demo_target "[]"]
    detect_failure_classifies [of "crashed_puppet\<lparr>reason := Some RC_EXITED\<rparr>" False demo_target "[]"]
    detect_failure_classifies [of "crashed_puppet\<lparr>reason := Some RC_WORKER,
           available_logs := [''stderr'', ''ffp_worker_memory_usage'']\<rparr>" False demo_target "[''memory'']"]
    detect_failure_classifies [of crashed_puppet False demo_target "[''memory'']"]
    detect_failure_classifies [of healthy_puppet True demo_target "[''timeout'']"]
    detect_failure_classifies [of healthy_puppet True demo_target "[]"]
  by (simp add: healthy_puppet_def crashed_puppet_def)

section \<open>The loop of trials\<close>

lemma trial_loop_induct [case_names stop error hit crash miss]:
  assumes stop: "\<And>js nc st. js = [] \<or> n - hd js < min_crashes st - nc \<Longrightarrow>
                   P js nc st (finish_false c st)"
      and error: "\<And>i js nc st e st1. \<not> n - i < min_crashes st - nc \<Longrightarrow>
                   run (temp_prefix c) (world (runs st)) st = (Inl e, st1) \<Longrightarrow>
                   P (i # js) nc st (Inl e, st1)"
      and hit: "\<And>i js nc st st1. \<not> n - i < min_crashes st - nc \<Longrightarrow>
                   run (temp_prefix c) (world (runs st)) st = (Inr True, st1) \<Longrightarrow>
                   min_crashes st1 \<le> nc + 1 \<Longrightarrow>
                   P (i # js) nc st (finish_true c st1)"
      and crash: "\<And>i js nc st st1. \<not> n - i < min_crashes st - nc \<Longrightarrow>
                   run (temp_prefix c) (world (runs st)) st = (Inr True, st1) \<Longrightarrow>
                   \<not> min_crashes st1 \<le> nc + 1 \<Longrightarrow>
                   P js (nc + 1) st1 (trial_loop world c n js (nc + 1) st1) \<Longrightarrow>
                   P (i # js) nc st (trial_loop world c n js (nc + 1) st1)"
      and miss: "\<And>i js nc st st1. \<not> n - i < min_crashes st - nc \<Longrightarrow>
                   run (temp_prefix c) (world (runs st)) st = (Inr False, st1) \<Longrightarrow>
                   P js nc st1 (trial_loop world c n js nc st1) \<Longrightarrow>
                   P (i # js) nc st (trial_loop world c n js nc st1)"
  shows "P js nc st (trial_loop world c n js nc st)"
proof (induction js arbitrary: nc st)
  case Nil
  show ?case using stop [of "[]" st nc] by simp
next
  case (Cons i js)
  show ?case
  proof (cases "n - i < min_crashes st - nc")
    case True
    then show ?thesis using stop [of "i # js" st nc] by simp
  next
    case False
    obtain r1 st1 where r: "run (temp_prefix c) (world (runs st)) st = (r1, st1)"
      by (cases "run (temp_prefix c) (world (runs st)) st")
    show ?thesis
    proof (cases r1)
      case (Inl e)
      then show ?thesis using error [OF False, of e st1 js] r False by simp
    next
      case (Inr b)
      show ?thesis
      proof (cases b)
        case True
        show ?thesis
        proof (cases "min_crashes st1 \<le> nc + 1")
          case le: True
          then show ?thesis
            using hit [OF False, of st1 js] r Inr True False by simp
        next
          case nle: False
          then show ?thesis
            using crash [OF False, of st1 js, OF _ _ Cons.IH] r Inr True False by simp
        qed
      next
        case nb: False
        then show ?thesis
          using miss [OF False, of st1 js, OF _ Cons.IH] r Inr False by simp
      qed
    qed
  qed
qed


lemma crashes_simps [simp]:
  "crashes [] = 0"
  "crashes (Inr True # hs) = 1 + crashes hs"
  "crashes (Inr False # hs) = crashes hs"
  "crashes (Inl e # hs) = crashes hs"
  by (simp_all add: crashes_def)

lemma consecutive_Cons:
  assumes "consecutive n (i # js)"
  shows "n - i = int (length (i # js))" and "consecutive n js"
proof -
  define m where "m = nat n"
  define k where "k = m - length (i # js)"
  have len: "length (i # js) \<le> m" and eq: "i # js = map int [k..<m]"
    using assms unfolding consecutive_def m_def k_def by simp_all
  have km: "k < m" using len unfolding k_def by simp
  then have "[k..<m] = k # [Suc k..<m]" by (simp add: upt_conv_Cons)
  then have i: "i = int k" and js: "js = map int [Suc k..<m]" using eq by simp_all
  have n: "n = int m" using km unfolding m_def by simp
  show "n - i = int (length (i # js))"
    using i n len unfolding k_def by simp
  have "Suc k = m - length js" using len unfolding k_def by simp
  then show "consecutive n js"
    using js len unfolding consecutive_def m_def [symmetric] by simp
qed

lemma consecutive_py_range: "consecutive n (py_range n)"
  by (simp add: consecutive_def py_range_def)

lemma run_adds_events:
  assumes "run p obs st = (r, st')"
  shows "\<exists>evs. trace st' = trace st @ evs \<and> (\<forall>q. InterestingCb q \<notin> set evs)"
proof -
  define st0 where "st0 = ensure_server st"
  have a: "extends st st0" unfolding st0_def by (rule ensure_server_extends)
  obtain r1 st1 where l: "relaunch obs st0 = (r1, st1)" by (cases "relaunch obs st0")
  have b: "extends st st1" using extends_trans [OF a relaunch_extends [of st0 obs]] l by simp
  then obtain pre where pre: "trace st1 = trace st @ pre" "quiet pre"
    by (auto simp: extends_def)
  obtain r2 st2 where t: "serve_and_classify p obs st1 = (r2, st2)"
    by (cases "serve_and_classify p obs st1")
  have c: "extends (log_event [MonitorStart] st1) st2"
    using serve_and_classify_extends [of st1 p obs] t by simp
  then obtain mid where mid: "trace st2 = trace st1 @ [MonitorStart] @ mid" "quiet mid"
    by (auto simp: extends_def log_event_def)
  show ?thesis
    using assms pre mid unfolding run_def Let_def st0_def [symmetric] l
    by (cases r1) (auto simp: t log_event_def quiet_def)
qed


lemma run_step:
  assumes "run p obs st = (r1, st1)"
  shows "history st1 = history st @ [r1]"
    and "\<exists>e1. trace st1 = trace st @ e1 \<and> (\<forall>q. InterestingCb q \<notin> set e1)"
    and "min_crashes st1 = min_crashes st" and "use_result_cache st1 = use_result_cache st"
    and "result_cache st1 = result_cache st" and "interesting_cb st1 = interesting_cb st"
  using run_history [OF assms] run_adds_events [OF assms] run_steady [OF assms]
  by (simp_all add: steady_def)

lemma loop_post_step:
  assumes h: "history st1 = history st @ [h]"
      and t: "trace st1 = trace st @ e1" "\<forall>q. InterestingCb q \<notin> set e1"
      and f: "min_crashes st1 = min_crashes st" "use_result_cache st1 = use_result_cache st"
             "result_cache st1 = result_cache st" "interesting_cb st1 = interesting_cb st"
      and post: "loop_post c L nc' st1 out"
      and start: "min_crashes st - nc \<le> int (Suc L)"
      and kind: "h = Inr True \<and> nc' = nc + 1 \<and> \<not> min_crashes st \<le> nc + 1
                 \<or> h = Inr False \<and> nc' = nc"
  shows "loop_post c (Suc L) nc st out"
proof -
  from post obtain hs evs where
    p1: "history (snd out) = history st1 @ hs" "trace (snd out) = trace st1 @ evs"
    and p2: "length hs \<le> L"
    and p3: "\<forall>j<length hs. min_crashes st1 - (nc' + crashes (take j hs)) \<le> int L - int j"
    and p4: "fst out = Inr True \<longrightarrow>
              hs \<noteq> [] \<and> last hs = Inr True \<and> min_crashes st1 \<le> nc' + crashes hs
              \<and> (nc' + crashes (butlast hs) < min_crashes st1 \<or> crashes (butlast hs) = 0)
              \<and> result_cache (snd out)
                  = (if use_result_cache st1
                     then (result_cache st1)(cache_key c \<mapsto> (True, temp_prefix c))
                     else result_cache st1)
              \<and> (interesting_cb st1 \<longrightarrow> evs \<noteq> [] \<and> last evs = InterestingCb (temp_prefix c))"
    and p5: "fst out = Inr False \<longrightarrow>
              (nc' + crashes hs < min_crashes st1 \<or> crashes hs = 0)
              \<and> (length hs = L \<or> int L - int (length hs) < min_crashes st1 - (nc' + crashes hs))
              \<and> list_all (\<lambda>h. h = Inr True \<or> h = Inr False) hs
              \<and> result_cache (snd out)
                  = (if use_result_cache st1
                     then (result_cache st1)(cache_key c \<mapsto> (False, temp_prefix c))
                     else result_cache st1)"
    and p6: "\<forall>e. fst out = Inl e \<longrightarrow>
              hs \<noteq> [] \<and> last hs = Inl e \<and> result_cache (snd out) = result_cache st1"
    and p7: "\<forall>q. InterestingCb q \<in> set evs
              \<longleftrightarrow> q = temp_prefix c \<and> fst out = Inr True \<and> interesting_cb st1"
    unfolding loop_post_def by blast
  have hk: "h = Inr True \<or> h = Inr False" using kind by blast
  have cr: "nc + crashes (h # xs) = nc' + crashes xs" for xs
    using kind by auto
  have q1: "history (snd out) = history st @ (h # hs)" "trace (snd out) = trace st @ (e1 @ evs)"
    using p1 h t(1) by simp_all
  have q2: "length (h # hs) \<le> Suc L" using p2 by simp
  have q3: "\<forall>j<length (h # hs). min_crashes st - (nc + crashes (take j (h # hs))) \<le> int (Suc L) - int j"
  proof (intro allI impI)
    fix j assume j: "j < length (h # hs)"
    show "min_crashes st - (nc + crashes (take j (h # hs))) \<le> int (Suc L) - int j"
    proof (cases j)
      case 0
      then show ?thesis using start by simp
    next
      case (Suc j')
      then have "j' < length hs" using j by simp
      then have "min_crashes st1 - (nc' + crashes (take j' hs)) \<le> int L - int j'"
        using p3 by blast
      then show ?thesis using Suc cr [of "take j' hs"] f(1) by simp
    qed
  qed
  have q4: "fst out = Inr True \<longrightarrow>
              h # hs \<noteq> [] \<and> last (h # hs) = Inr True \<and> min_crashes st \<le> nc + crashes (h # hs)
              \<and> (nc + crashes (butlast (h # hs)) < min_crashes st \<or> crashes (butlast (h # hs)) = 0)
              \<and> result_cache (snd out)
                  = (if use_result_cache st
                     then (result_cache st)(cache_key c \<mapsto> (True, temp_prefix c))
                     else result_cache st)
              \<and> (interesting_cb st \<longrightarrow> e1 @ evs \<noteq> [] \<and> last (e1 @ evs) = InterestingCb (temp_prefix c))"
  proof
    assume a: "fst out = Inr True"
    note b = p4 [rule_format, OF a]
    have ne: "hs \<noteq> []" using b by blast
    have bl: "nc + crashes (butlast (h # hs)) = nc' + crashes (butlast hs)"
      using ne cr [of "butlast hs"] by simp
    have "nc + crashes (butlast (h # hs)) < min_crashes st \<or> crashes (butlast (h # hs)) = 0"
    proof (cases "crashes (butlast hs) = 0")
      case True
      then show ?thesis using kind bl ne by auto
    next
      case False
      then show ?thesis using b bl f(1) by auto
    qed
    then show "h # hs \<noteq> [] \<and> last (h # hs) = Inr True \<and> min_crashes st \<le> nc + crashes (h # hs)
              \<and> (nc + crashes (butlast (h # hs)) < min_crashes st \<or> crashes (butlast (h # hs)) = 0)
              \<and> result_cache (snd out)
                  = (if use_result_cache st
                     then (result_cache st)(cache_key c \<mapsto> (True, temp_prefix c))
                     else result_cache st)
              \<and> (interesting_cb st \<longrightarrow> e1 @ evs \<noteq> [] \<and> last (e1 @ evs) = InterestingCb (temp_prefix c))"
      using b ne cr [of hs] f by simp
  qed
  have q5: "fst out = Inr False \<longrightarrow>
              (nc + crashes (h # hs) < min_crashes st \<or> crashes (h # hs) = 0)
              \<and> (length (h # hs) = Suc L
                  \<or> int (Suc L) - int (length (h # hs)) < min_crashes st - (nc + crashes (h # hs)))
              \<and> list_all (\<lambda>h. h = Inr True \<or> h = Inr False) (h # hs)
              \<and> result_cache (snd out)
                  = (if use_result_cache st
                     then (result_cache st)(cache_key c \<mapsto> (False, temp_prefix c))
                     else result_cache st)"
  proof
    assume a: "fst out = Inr False"
    note b = p5 [rule_format, OF a]
    have "nc + crashes (h # hs) < min_crashes st \<or> crashes (h # hs) = 0"
    proof (cases "crashes hs = 0")
      case True
      then show ?thesis using kind by auto
    next
      case False
      then show ?thesis using b cr [of hs] f(1) by auto
    qed
    moreover have "length (h # hs) = Suc L
                  \<or> int (Suc L) - int (length (h # hs)) < min_crashes st - (nc + crashes (h # hs))"
      using b cr [of hs] f(1) by auto
    ultimately show "(nc + crashes (h # hs) < min_crashes st \<or> crashes (h # hs) = 0)
              \<and> (length (h # hs) = Suc L
                  \<or> int (Suc L) - int (length (h # hs)) < min_crashes st - (nc + crashes (h # hs)))
              \<and> list_all (\<lambda>h. h = Inr True \<or> h = Inr False) (h # hs)
              \<and> result_cache (snd out)
                  = (if use_result_cache st
                     then (result_cache st)(cache_key c \<mapsto> (False, temp_prefix c))
                     else result_cache st)"
      using b hk f by simp
  qed
  have q6: "\<forall>e. fst out = Inl e \<longrightarrow>
              h # hs \<noteq> [] \<and> last (h # hs) = Inl e \<and> result_cache (snd out) = result_cache st"
    using p6 f(3) by auto
  have q7: "\<forall>q. InterestingCb q \<in> set (e1 @ evs)
              \<longleftrightarrow> q = temp_prefix c \<and> fst out = Inr True \<and> interesting_cb st"
    using p7 t(2) f(4) by auto
  show ?thesis
    unfolding loop_post_def
    using q1 q2 q3 q4 q5 q6 q7 by blast
qed


lemma loop_post_stop:
  assumes "L = 0 \<or> int L < min_crashes st - nc"
  shows "loop_post c L nc st (finish_false c st)"
  unfolding loop_post_def finish_false_def
  using assms
  by (intro exI [of _ "[]"]) (auto simp: store_def)

lemma loop_post_error:
  assumes "run p obs st = (Inl e, st1)" and "min_crashes st - nc \<le> int (Suc L)"
  shows "loop_post c (Suc L) nc st (Inl e, st1)"
proof -
  from run_step(2) [OF assms(1)] obtain e1 where
    e1: "trace st1 = trace st @ e1" "\<forall>q. InterestingCb q \<notin> set e1" by blast
  show ?thesis
    unfolding loop_post_def
    using run_step(1,5) [OF assms(1)] e1 assms(2)
    by (intro exI [of _ "[Inl e]"] exI [of _ e1]) auto
qed

lemma loop_post_hit:
  assumes "run (temp_prefix c) obs st = (Inr True, st1)" and "min_crashes st - nc \<le> int (Suc L)"
      and "min_crashes st1 \<le> nc + 1"
  shows "loop_post c (Suc L) nc st (finish_true c st1)"
proof -
  from run_step(2) [OF assms(1)] obtain e1 where
    e1: "trace st1 = trace st @ e1" "\<forall>q. InterestingCb q \<notin> set e1" by blast
  note f = run_step(1,3,4,5,6) [OF assms(1)]
  show ?thesis
    unfolding loop_post_def finish_true_def
    using f e1 assms(2,3)
    by (intro exI [of _ "[Inr True]"]
          exI [of _ "e1 @ (if interesting_cb st then [InterestingCb (temp_prefix c)] else [])"])
       (auto simp: store_def log_event_def)
qed

lemma trial_loop_post:
  "consecutive n js \<longrightarrow> loop_post c (length js) nc st (trial_loop world c n js nc st)"
proof (induction js nc st rule: trial_loop_induct [where n = n and c = c and world = world])
  case (stop js nc st)
  show ?case
  proof
    assume cons: "consecutive n js"
    have "length js = 0 \<or> int (length js) < min_crashes st - nc"
    proof (cases js)
      case Nil
      then show ?thesis by simp
    next
      case (Cons i js')
      then show ?thesis using stop consecutive_Cons(1) [of n i js'] cons by simp
    qed
    then show "loop_post c (length js) nc st (finish_false c st)"
      by (rule loop_post_stop)
  qed
next
  case (error i js nc st e st1)
  show ?case
  proof
    assume cons: "consecutive n (i # js)"
    have "min_crashes st - nc \<le> int (Suc (length js))"
      using error(1) consecutive_Cons(1) [OF cons] by simp
    then show "loop_post c (length (i # js)) nc st (Inl e, st1)"
      using loop_post_error [OF error(2)] by simp
  qed
next
  case (hit i js nc st st1)
  show ?case
  proof
    assume cons: "consecutive n (i # js)"
    have "min_crashes st - nc \<le> int (Suc (length js))"
      using hit(1) consecutive_Cons(1) [OF cons] by simp
    then show "loop_post c (length (i # js)) nc st (finish_true c st1)"
      using loop_post_hit [OF hit(2) _ hit(3)] by simp
  qed
next
  case (crash i js nc st st1)
  show ?case
  proof
    assume cons: "consecutive n (i # js)"
    have start: "min_crashes st - nc \<le> int (Suc (length js))"
      using crash(1) consecutive_Cons(1) [OF cons] by simp
    have post: "loop_post c (length js) (nc + 1) st1 (trial_loop world c n js (nc + 1) st1)"
      using crash(4) consecutive_Cons(2) [OF cons] by blast
    from run_step(2) [OF crash(2)] obtain e1 where
      e1: "trace st1 = trace st @ e1" "\<forall>q. InterestingCb q \<notin> set e1" by blast
    note f = run_step(1,3,4,5,6) [OF crash(2)]
    have "loop_post c (Suc (length js)) nc st (trial_loop world c n js (nc + 1) st1)"
      using loop_post_step [OF f(1) e1 f(2,3,4,5) post start] crash(3) f(2) by simp
    then show "loop_post c (length (i # js)) nc st (trial_loop world c n js (nc + 1) st1)"
      by simp
  qed
next
  case (miss i js nc st st1)
  show ?case
  proof
    assume cons: "consecutive n (i # js)"
    have start: "min_crashes st - nc \<le> int (Suc (length js))"
      using miss(1) consecutive_Cons(1) [OF cons] by simp
    have post: "loop_post c (length js) nc st1 (trial_loop world c n js nc st1)"
      using miss(3) consecutive_Cons(2) [OF cons] by blast
    from run_step(2) [OF miss(2)] obtain e1 where
      e1: "trace st1 = trace st @ e1" "\<forall>q. InterestingCb q \<notin> set e1" by blast
    note f = run_step(1,3,4,5,6) [OF miss(2)]
    have "loop_post c (Suc (length js)) nc st (trial_loop world c n js nc st1)"
      using loop_post_step [OF f(1) e1 f(2,3,4,5) post start] by simp
    then show "loop_post c (length (i # js)) nc st (trial_loop world c n js nc st1)"
      by simp
  qed
qed


lemma crashes_append: "crashes (xs @ ys) = crashes xs + crashes ys"
  by (simp add: crashes_def)

lemma crashes_last:
  assumes "hs \<noteq> []" and "last hs = Inr True"
  shows "crashes hs = crashes (butlast hs) + 1"
proof -
  have "hs = butlast hs @ [Inr True]" using assms by (metis append_butlast_last_id)
  then have "crashes hs = crashes (butlast hs @ [Inr True])" by simp
  then show ?thesis unfolding crashes_append by simp
qed

lemma evaluate_miss:
  assumes "use_result_cache st" and "result_cache st (cache_key c) = None"
  shows "evaluate world c st =
           trial_loop world c (max (repeat st) (min_crashes st))
             (py_range (max (repeat st) (min_crashes st))) 0 st"
  using assms by (simp add: evaluate_def Let_def)

text \<open>What the loop of trials does with the outcomes \<open>hs\<close> of its trials, in a call of
  \<^verbatim>\<open>interesting\<close> that is not skipped and misses the cache, with \<open>M = min_crashes\<close>
  and \<open>R = repeat\<close>: it runs at most \<open>max R M\<close> trials and starts none when the
  trials left, the one to start included, are fewer than \<open>M\<close> minus the crashes
  counted so far; it returns true exactly at the trial that brings the counter to \<open>M\<close>,
  the interesting-callback, when set, being the last thing done and the cache holding
  true; it returns false with fewer crashes, after all the trials or when \<open>M\<close> was
  out of reach, the cache holding false; and a trial that raises ends the call with its
  exception and the cache as it was.\<close>

lemma trial_loop_verdicts:
  assumes "interesting world c st = (r, st')"
      and "\<not> (skip st \<noteq> 0 \<and> (\<exists>k. skipped st = Some k \<and> k < skip st))"
      and "use_result_cache st"
      and "result_cache st (cache_key c) = None"
  shows "\<exists>hs. history st' = history st @ hs
     \<and> int (length hs) \<le> max 0 (max (repeat st) (min_crashes st))
     \<and> (\<forall>j<length hs.
           min_crashes st - crashes (take j hs) \<le> max (repeat st) (min_crashes st) - int j)
     \<and> (r = Inr True \<longrightarrow>
           hs \<noteq> [] \<and> last hs = Inr True \<and> crashes hs = max (min_crashes st) 1
           \<and> result_cache st' = (result_cache st)(cache_key c \<mapsto> (True, temp_prefix c))
           \<and> (interesting_cb st \<longrightarrow>
                 trace st' \<noteq> [] \<and> last (trace st') = InterestingCb (temp_prefix c)))
     \<and> (r = Inr False \<longrightarrow>
           crashes hs < max (min_crashes st) 1
           \<and> (int (length hs) = max 0 (max (repeat st) (min_crashes st))
               \<or> max (repeat st) (min_crashes st) - int (length hs) < min_crashes st - crashes hs)
           \<and> result_cache st' = (result_cache st)(cache_key c \<mapsto> (False, temp_prefix c)))
     \<and> (\<forall>e. r = Inl e \<longrightarrow> hs \<noteq> [] \<and> last hs = Inl e \<and> result_cache st' = result_cache st)
     \<and> (InterestingCb (temp_prefix c) \<in> set (drop (length (trace st)) (trace st'))
           \<longleftrightarrow> r = Inr True \<and> interesting_cb st)"
proof -
  define n where "n = max (repeat st) (min_crashes st)"
  define M where "M = min_crashes st"
  define se where "se = (if skip st \<noteq> 0 \<and> skipped st = None then st\<lparr>skipped := Some 0\<rparr> else st)"
  have se: "history se = history st" "trace se = trace st" "min_crashes se = M" "repeat se = repeat st"
    "use_result_cache se" "result_cache se = result_cache st" "interesting_cb se = interesting_cb st"
    using assms(3) unfolding se_def M_def by simp_all
  have "interesting world c st = evaluate world c se"
    using assms(2) unfolding interesting_def se_def by (auto split: option.splits)
  also have "\<dots> = trial_loop world c n (py_range n) 0 se"
    using evaluate_miss [of se c world] se assms(4) unfolding n_def M_def by simp
  finally have out: "trial_loop world c n (py_range n) 0 se = (r, st')"
    using assms(1) by simp
  have L: "length (py_range n) = nat n" by (simp add: py_range_def)
  have "loop_post c (nat n) 0 se (r, st')"
    using trial_loop_post [of n "py_range n" c 0 se world] consecutive_py_range [of n] out L
    by simp
  then obtain hs evs where
    p1: "history st' = history st @ hs" "trace st' = trace st @ evs"
    and p2: "length hs \<le> nat n"
    and p3: "\<forall>j<length hs. M - crashes (take j hs) \<le> int (nat n) - int j"
    and p4: "r = Inr True \<longrightarrow>
              hs \<noteq> [] \<and> last hs = Inr True \<and> M \<le> crashes hs
              \<and> (crashes (butlast hs) < M \<or> crashes (butlast hs) = 0)
              \<and> result_cache st' = (result_cache st)(cache_key c \<mapsto> (True, temp_prefix c))
              \<and> (interesting_cb st \<longrightarrow> evs \<noteq> [] \<and> last evs = InterestingCb (temp_prefix c))"
    and p5: "r = Inr False \<longrightarrow>
              (crashes hs < M \<or> crashes hs = 0)
              \<and> (length hs = nat n \<or> int (nat n) - int (length hs) < M - crashes hs)
              \<and> result_cache st' = (result_cache st)(cache_key c \<mapsto> (False, temp_prefix c))"
    and p6: "\<forall>e. r = Inl e \<longrightarrow> hs \<noteq> [] \<and> last hs = Inl e \<and> result_cache st' = result_cache st"
    and p7: "\<forall>q. InterestingCb q \<in> set evs \<longleftrightarrow> q = temp_prefix c \<and> r = Inr True \<and> interesting_cb st"
    unfolding loop_post_def using se by auto
  have q2: "int (length hs) \<le> max 0 n" using p2 by simp
  have q3: "\<forall>j<length hs. M - crashes (take j hs) \<le> n - int j"
  proof (intro allI impI)
    fix j assume "j < length hs"
    then have "M - crashes (take j hs) \<le> int (nat n) - int j" and "0 < nat n"
      using p3 p2 by auto
    then show "M - crashes (take j hs) \<le> n - int j" by simp
  qed
  have q4: "r = Inr True \<longrightarrow>
           hs \<noteq> [] \<and> last hs = Inr True \<and> crashes hs = max M 1
           \<and> result_cache st' = (result_cache st)(cache_key c \<mapsto> (True, temp_prefix c))
           \<and> (interesting_cb st \<longrightarrow>
                 trace st' \<noteq> [] \<and> last (trace st') = InterestingCb (temp_prefix c))"
  proof
    assume a: "r = Inr True"
    note b = p4 [rule_format, OF a]
    have "crashes hs = crashes (butlast hs) + 1"
      using crashes_last b by blast
    moreover have "0 \<le> crashes (butlast hs)" by (simp add: crashes_def)
    ultimately have "crashes hs = max M 1" using b by auto
    then show "hs \<noteq> [] \<and> last hs = Inr True \<and> crashes hs = max M 1
           \<and> result_cache st' = (result_cache st)(cache_key c \<mapsto> (True, temp_prefix c))
           \<and> (interesting_cb st \<longrightarrow>
                 trace st' \<noteq> [] \<and> last (trace st') = InterestingCb (temp_prefix c))"
      using b p1(2) by simp
  qed
  have q5: "r = Inr False \<longrightarrow>
           crashes hs < max M 1
           \<and> (int (length hs) = max 0 n \<or> n - int (length hs) < M - crashes hs)
           \<and> result_cache st' = (result_cache st)(cache_key c \<mapsto> (False, temp_prefix c))"
  proof
    assume a: "r = Inr False"
    note b = p5 [rule_format, OF a]
    have "int (length hs) = max 0 n \<or> n - int (length hs) < M - crashes hs"
    proof (cases "0 \<le> n")
      case True
      then have i: "int (nat n) = n" "max 0 n = n" by simp_all
      have "length hs = nat n \<or> int (nat n) - int (length hs) < M - crashes hs"
        using b by blast
      then show ?thesis
      proof
        assume "length hs = nat n"
        then have "int (length hs) = n" using i(1) by simp
        then show ?thesis using i(2) by simp
      next
        assume "int (nat n) - int (length hs) < M - crashes hs"
        then show ?thesis using i(1) by simp
      qed
    next
      case False
      then show ?thesis using p2 by simp
    qed
    moreover have "crashes hs < max M 1" using b by auto
    ultimately show "crashes hs < max M 1
           \<and> (int (length hs) = max 0 n \<or> n - int (length hs) < M - crashes hs)
           \<and> result_cache st' = (result_cache st)(cache_key c \<mapsto> (False, temp_prefix c))"
      using b by blast
  qed
  have q7: "InterestingCb (temp_prefix c) \<in> set (drop (length (trace st)) (trace st'))
           \<longleftrightarrow> r = Inr True \<and> interesting_cb st"
    using p7 p1(2) by simp
  show ?thesis
    using p1(1) q2 q3 q4 q5 p6 q7 unfolding n_def M_def by blast
qed

subsection \<open>The directory of the logs\<close>

lemma made_log_event: "made (log_event evs st) = made st"
  by (simp add: log_event_def)

lemma made_update_timeout: "made (update_timeout e st) = made st"
  unfolding update_timeout_eq by simp

lemma made_ensure_server: "made (ensure_server st) = made st"
  by (simp add: ensure_server_def Let_def log_event_def split: option.splits)

lemma made_launch_loop: "made (snd (launch_loop n k obs st)) = made st"
proof (induction n arbitrary: k st)
  case 0
  show ?case by simp
next
  case (Suc n)
  show ?case
    by (simp add: Let_def Suc.IH log_event_def split: prod.splits option.splits)
qed

lemma made_relaunch: "made (snd (relaunch obs st)) = made st"
  by (simp add: relaunch_def made_launch_loop)

lemma made_serve_testcase: "made (snd (serve_testcase obs st)) = made st"
  by (simp add: serve_testcase_def log_event_def)

lemma made_judge_crash: "made (snd (judge_crash p obs crash st)) = made st"
  unfolding judge_crash_def Let_def
  by (auto simp: made_update_timeout log_event_def split: option.splits)

lemma save_logs_made:
  assumes "save_logs p obs st = (r, st1)"
  shows "made st \<subseteq> made st1"
    and "r = Inr u \<Longrightarrow> p @ ''_logs'' \<notin> made st \<and> p @ ''_logs'' \<in> made st1"
  using assms unfolding save_logs_def Let_def
  by (auto simp: log_event_def split: if_splits option.splits)

lemma handle_status_made:
  assumes "handle_status p obs fd st = (r, st')"
  shows "made st \<subseteq> made st'"
    and "r = Inr True \<Longrightarrow> p @ ''_logs'' \<notin> made st \<and> p @ ''_logs'' \<in> made st'"
proof -
  obtain r1 st1 where s: "save_logs p obs st = (r1, st1)" by (cases "save_logs p obs st")
  note m = save_logs_made [OF s]
  have j: "made b = made st1" if "judge_crash p obs crash (log_event evs st1) = (a, b)"
    for crash evs a b
    using made_judge_crash [of p obs crash "log_event evs st1"] that
    by (simp add: made_log_event)
  show "made st \<subseteq> made st'"
    using assms s m(1)
    by (cases fd; cases r1)
       (auto simp: handle_status_def Let_def made_log_event split: sum.splits dest: j)
  show "r = Inr True \<Longrightarrow> p @ ''_logs'' \<notin> made st \<and> p @ ''_logs'' \<in> made st'"
    using assms s m
    by (cases fd; cases r1)
       (auto simp: handle_status_def Let_def made_log_event split: sum.splits dest: j)
qed

lemma serve_and_classify_made:
  assumes "serve_and_classify p obs st = (r, st')"
  shows "made st \<subseteq> made st'"
    and "r = Inr True \<Longrightarrow> p @ ''_logs'' \<notin> made st \<and> p @ ''_logs'' \<in> made st'"
proof -
  define st1 where "st1 = log_event [MonitorStart] st"
  obtain r2 st2 where s2: "serve_testcase obs st1 = (r2, st2)" by (cases "serve_testcase obs st1")
  have m2: "made st2 = made st"
    using made_serve_testcase [of obs st1] s2 by (simp add: st1_def made_log_event)
  show "made st \<subseteq> made st'"
    and "r = Inr True \<Longrightarrow> p @ ''_logs'' \<notin> made st \<and> p @ ''_logs'' \<in> made st'"
  proof (atomize (full), cases r2)
    case (Inl e)
    then show "made st \<subseteq> made st'
        \<and> (r = Inr True \<longrightarrow> p @ ''_logs'' \<notin> made st \<and> p @ ''_logs'' \<in> made st')"
      using assms m2 unfolding serve_and_classify_def Let_def st1_def [symmetric] s2 by auto
  next
    case (Inr status)
    obtain fd calls where d: "detect_failure (target st2) (ignore st2) (status = SERVED_TIMEOUT)
        (puppet obs) = (fd, calls)"
      by (cases "detect_failure (target st2) (ignore st2) (status = SERVED_TIMEOUT) (puppet obs)")
    define st3 where "st3 = log_event (DetectFailure (status = SERVED_TIMEOUT) # map TargetCall calls) st2"
    have m3: "made st3 = made st" using m2 by (simp add: st3_def made_log_event)
    obtain r4 st4 where h: "handle_status p obs fd st3 = (r4, st4)"
      by (cases "handle_status p obs fd st3")
    note m4 = handle_status_made [OF h]
    have sc: "(r, st') =
        (case detect_error obs of
           Some e \<Rightarrow> (Inl e, st3)
         | None \<Rightarrow>
             (case r4 of
                Inl e \<Rightarrow> (Inl e, st4)
              | Inr result \<Rightarrow>
                  (case relaunch_error obs of
                     Some e \<Rightarrow> (Inl e, log_event [CheckRelaunch] st4)
                   | None \<Rightarrow> (Inr result, log_event [CheckRelaunch] st4))))"
      using assms
      unfolding serve_and_classify_def Let_def st1_def [symmetric] s2 Inr sum.case prod.case d
        st3_def [symmetric] h
      by (auto split: option.splits sum.splits)
    show "made st \<subseteq> made st'
        \<and> (r = Inr True \<longrightarrow> p @ ''_logs'' \<notin> made st \<and> p @ ''_logs'' \<in> made st')"
      using sc m3 m4
      by (auto simp: made_log_event split: option.splits sum.splits)
  qed
qed

lemma run_made:
  assumes "run p obs st = (r, st')"
  shows "made st \<subseteq> made st'"
    and "r = Inr True \<Longrightarrow> p @ ''_logs'' \<notin> made st \<and> p @ ''_logs'' \<in> made st'"
proof -
  define st0 where "st0 = ensure_server st"
  obtain r1 st1 where l: "relaunch obs st0 = (r1, st1)" by (cases "relaunch obs st0")
  have m1: "made st1 = made st"
    using made_relaunch [of obs st0] l by (simp add: st0_def made_ensure_server)
  obtain r2 st2 where t: "serve_and_classify p obs st1 = (r2, st2)"
    by (cases "serve_and_classify p obs st1")
  note m2 = serve_and_classify_made [OF t]
  show "made st \<subseteq> made st'"
    using assms m1 m2(1) unfolding run_def Let_def st0_def [symmetric] l
    by (cases r1) (auto simp: t log_event_def)
  show "r = Inr True \<Longrightarrow> p @ ''_logs'' \<notin> made st \<and> p @ ''_logs'' \<in> made st'"
    using assms m1 m2 unfolding run_def Let_def st0_def [symmetric] l
    by (cases r1) (auto simp: t log_event_def)
qed

text \<open>Every trial of one call saves its logs under the same \<^verbatim>\<open>temp_prefix\<close>, so
  a trial that returns true has made the directory and no later trial of the call can:
  the loop returns true only at the first trial that does, and a call that misses the
  cache returns true only for \<open>min_crashes \<le> 1\<close>.\<close>

lemma trial_loop_first_crash:
  "fst (trial_loop world c n js nc st) = Inr True \<longrightarrow>
     min_crashes st \<le> nc + 1 \<and> temp_prefix c @ ''_logs'' \<notin> made st"
proof (induction js nc st rule: trial_loop_induct [where n = n and c = c and world = world])
  case (stop js nc st)
  show ?case by (simp add: finish_false_def)
next
  case (error i js nc st e st1)
  show ?case by simp
next
  case (hit i js nc st st1)
  have "min_crashes st1 = min_crashes st" using run_step(3) [OF hit(2)] .
  then show ?case using hit(3) run_made(2) [OF hit(2)] by simp
next
  case (crash i js nc st st1)
  have "temp_prefix c @ ''_logs'' \<in> made st1" using run_made(2) [OF crash(2)] by simp
  then show ?case using crash(4) by auto
next
  case (miss i js nc st st1)
  have "min_crashes st1 = min_crashes st" using run_step(3) [OF miss(2)] .
  then show ?case using miss(3) run_made(1) [OF miss(2)] by auto
qed

lemma one_crash_at_most:
  assumes "interesting world c st = (Inr True, st')"
      and "\<not> (use_result_cache st \<and> result_cache st (cache_key c) \<noteq> None)"
  shows "min_crashes st \<le> 1"
proof -
  define se where "se = (if skip st \<noteq> 0 \<and> skipped st = None then st\<lparr>skipped := Some 0\<rparr> else st)"
  have se: "min_crashes se = min_crashes st" "use_result_cache se = use_result_cache st"
    "result_cache se = result_cache st" "repeat se = repeat st"
    unfolding se_def by simp_all
  have "interesting world c st = evaluate world c se"
    using assms(1) unfolding interesting_def se_def by (auto split: option.splits if_splits)
  then have "evaluate world c se = (Inr True, st')" using assms(1) by simp
  then have "fst (trial_loop world c (max (repeat se) (min_crashes se))
               (py_range (max (repeat se) (min_crashes se))) 0 se) = Inr True"
    using assms(2) se unfolding evaluate_def Let_def
    by (auto split: if_splits option.splits)
  then show ?thesis
    using trial_loop_first_crash [of world c _ _ 0 se] se by simp
qed

text \<open>Claim C1 says that the call returns true as soon as the crash counter reaches
  \<open>min_crashes\<close>. With \<open>repeat = 2\<close> and \<open>min_crashes = 2\<close>, on a target that
  crashes in the same function in both trials, the first trial counts one crash and
  the second raises the \<^verbatim>\<open>OSError\<close> of \<^verbatim>\<open>os.mkdir\<close>, because the first has made
  \<^verbatim>\<open>t/1_logs\<close>: the call ends with that exception, nothing is cached and the
  interesting-callback is not called.\<close>

theorem second_crash_raises:
  "fst (interesting (\<lambda>i. crash_obs ''f'') (demo_call ''t/1'' ''k1'')
          (demo_state\<lparr>repeat := 2, min_crashes := 2\<rparr>))
     = Inl (OSError ''File exists: t/1_logs'')
   \<and> history (snd (interesting (\<lambda>i. crash_obs ''f'') (demo_call ''t/1'' ''k1'')
          (demo_state\<lparr>repeat := 2, min_crashes := 2\<rparr>)))
     = [Inr True, Inl (OSError ''File exists: t/1_logs'')]
   \<and> result_cache (snd (interesting (\<lambda>i. crash_obs ''f'') (demo_call ''t/1'' ''k1'')
          (demo_state\<lparr>repeat := 2, min_crashes := 2\<rparr>))) ''k1'' = None
   \<and> InterestingCb ''t/1'' \<notin> set (trace (snd (interesting (\<lambda>i. crash_obs ''f'')
          (demo_call ''t/1'' ''k1'') (demo_state\<lparr>repeat := 2, min_crashes := 2\<rparr>))))"
  by (simp add: call_defs trial_defs demo_defs)

section \<open>Which crashes count\<close>

text \<open>The verdict on a crash, case by case. The test of line 297 reads the reference
  signature only: \<^verbatim>\<open>any_crash\<close> decides whether a signature is adopted, not whether
  the crash counts.\<close>

lemma judge_crash_cases:
  assumes "alt_cb_error obs = None"
  shows "judge_crash p obs crash s =
     (if short_signature crash = ''No crash detected'' then (Inr False, s)
      else if orig_sig s = None \<or> (\<exists>sig. orig_sig s = Some sig \<and> matched_by crash sig)
      then (Inr True, update_timeout (elapsed obs)
              (if orig_sig s = None \<and> \<not> any_crash s
               then s\<lparr>orig_sig := Some (crash_signature crash 5)\<rparr> else s))
      else (Inr False, if alt_crash_cb s then log_event [AltCrashCb p] s else s))"
  using assms unfolding judge_crash_def Let_def
  by (auto split: option.splits)

lemma verdict_ignores_any_crash:
  "fst (judge_crash p obs crash (s\<lparr>any_crash := a\<rparr>)) = fst (judge_crash p obs crash s)"
  unfolding judge_crash_def Let_def
  by (auto split: option.splits)

text \<open>Claim C2 says that with \<^verbatim>\<open>any_crash\<close> set every crash whose report yields a
  signature counts. Take an oracle with \<^verbatim>\<open>any_crash\<close> set and the reference
  signature \<open>g\<close> supplied, and a trial that is classified as a failure (the crash
  report is built from its logs) with a crash in \<open>f\<close>, which \<open>g\<close> does not match:
  the trial is uninteresting and the crash goes to
  the alt-crash callback, which the comment of lines 43 and 44 keeps for crashes that
  do not match the original signature when \<^verbatim>\<open>any_crash\<close> is not set.\<close>

theorem any_crash_with_reference:
  "any_crash (demo_state\<lparr>any_crash := True, orig_sig := Some ''g''\<rparr>)
   \<and> CreateCrashInfo ''t/1_logs'' \<in> set (trace (snd (run ''t/1'' (crash_obs ''f'')
                                   (demo_state\<lparr>any_crash := True, orig_sig := Some ''g''\<rparr>))))
   \<and> report (crash_obs ''f'') = Inr (demo_crash ''f'')
   \<and> short_signature (demo_crash ''f'') \<noteq> ''No crash detected''
   \<and> \<not> matched_by (demo_crash ''f'') ''g''
   \<and> fst (run ''t/1'' (crash_obs ''f'') (demo_state\<lparr>any_crash := True, orig_sig := Some ''g''\<rparr>))
       = Inr False
   \<and> AltCrashCb ''t/1'' \<in> set (trace (snd (run ''t/1'' (crash_obs ''f'')
                                   (demo_state\<lparr>any_crash := True, orig_sig := Some ''g''\<rparr>))))
   \<and> fst (run ''t/1'' (crash_obs ''f'') (demo_state\<lparr>any_crash := True\<rparr>)) = Inr True"
  by (simp add: trial_defs demo_defs)

section \<open>Skipped calls\<close>

lemma skipped_call:
  assumes "skip st \<noteq> 0" and "skipped st = Some k" and "k < skip st"
  shows "interesting world c st = (Inr False, st\<lparr>skipped := Some (k + 1)\<rparr>)"
  using assms by (simp add: interesting_def)

lemma skipped_calls:
  "skip st = int N \<Longrightarrow> skipped st = Some k \<Longrightarrow> 0 \<le> k \<Longrightarrow> k + int (length cs) \<le> int N \<Longrightarrow>
     session world cs st
       = (replicate (length cs) (Inr False), st\<lparr>skipped := Some (k + int (length cs))\<rparr>)"
proof (induction cs arbitrary: st k)
  case Nil
  then show ?case by simp
next
  case (Cons c cs)
  have k: "k < skip st" "skip st \<noteq> 0" using Cons.prems by simp_all
  define st1 where "st1 = st\<lparr>skipped := Some (k + 1)\<rparr>"
  have first: "interesting world c st = (Inr False, st1)"
    unfolding st1_def by (rule skipped_call [OF k(2) Cons.prems(2) k(1)])
  have p: "skip st1 = int N" "skipped st1 = Some (k + 1)" "0 \<le> k + 1"
    "k + 1 + int (length cs) \<le> int N"
    using Cons.prems by (simp_all add: st1_def)
  have rest: "session world cs st1
       = (replicate (length cs) (Inr False), st1\<lparr>skipped := Some (k + 1 + int (length cs))\<rparr>)"
    by (rule Cons.IH [OF p])
  have eq: "k + 1 + int (length cs) = k + int (length (c # cs))" by simp
  have "session world (c # cs) st
       = (Inr False # replicate (length cs) (Inr False),
          st1\<lparr>skipped := Some (k + 1 + int (length cs))\<rparr>)"
    by (simp add: first rest)
  then show ?case
    unfolding eq by (simp add: st1_def)
qed

text \<open>Claim C5, amended. With \<open>skip = N > 0\<close>: the first call after \<^verbatim>\<open>init\<close>, which
  finds the counter unset, sets it to 0 and is evaluated like any other call; each of
  the next \<open>N\<close> calls returns false at once and changes nothing but the counter, so no
  trial is run; every call after them is evaluated. An evaluation leaves the counter
  alone, so it persists from call to call, and \<^verbatim>\<open>init\<close> unsets it.\<close>

theorem skip_after_first:
  assumes "skip st = int N" and "0 < N"
  shows "(skipped st = None \<longrightarrow>
            interesting world c st = evaluate world c (st\<lparr>skipped := Some 0\<rparr>))
       \<and> (skipped st = Some 0 \<and> length cs = N \<longrightarrow>
            session world cs st = (replicate N (Inr False), st\<lparr>skipped := Some (int N)\<rparr>))
       \<and> (\<forall>k. skipped st = Some k \<and> int N \<le> k \<longrightarrow>
            interesting world c st = evaluate world c st)
       \<and> (\<forall>r st'. evaluate world c st = (r, st') \<longrightarrow>
            skip st' = skip st \<and> skipped st' = skipped st)
       \<and> (\<forall>path. skipped (init path st) = None \<and> skip (init path st) = skip st)"
proof (intro conjI)
  have nz: "skip st \<noteq> 0" using assms by simp
  show "skipped st = None \<longrightarrow>
            interesting world c st = evaluate world c (st\<lparr>skipped := Some 0\<rparr>)"
    using nz by (simp add: interesting_def)
  show "skipped st = Some 0 \<and> length cs = N \<longrightarrow>
            session world cs st = (replicate N (Inr False), st\<lparr>skipped := Some (int N)\<rparr>)"
  proof
    assume h: "skipped st = Some 0 \<and> length cs = N"
    then have "0 + int (length cs) \<le> int N" by simp
    from skipped_calls [OF assms(1) _ _ this, of world] h
    show "session world cs st = (replicate N (Inr False), st\<lparr>skipped := Some (int N)\<rparr>)"
      by simp
  qed
  show "\<forall>k. skipped st = Some k \<and> int N \<le> k \<longrightarrow>
            interesting world c st = evaluate world c st"
  proof (intro allI impI)
    fix k assume "skipped st = Some k \<and> int N \<le> k"
    then show "interesting world c st = evaluate world c st"
      using assms(1) by (simp add: interesting_def)
  qed
  show "\<forall>r st'. evaluate world c st = (r, st') \<longrightarrow>
            skip st' = skip st \<and> skipped st' = skipped st"
  proof (intro allI impI)
    fix r st' assume "evaluate world c st = (r, st')"
    from evaluate_calm [OF this]
    show "skip st' = skip st \<and> skipped st' = skipped st"
      by (simp add: calm_def)
  qed
  show "\<forall>path. skipped (init path st) = None \<and> skip (init path st) = skip st"
    by (simp add: init_def)
qed

theorem skip_after_first_witness:
  "fst (interesting (\<lambda>i. crash_obs ''f'') (demo_call ''t/1'' ''k1'')
          (init ''/tmp/tc/test.html'' (demo_state\<lparr>skip := 2\<rparr>))) = Inr True
   \<and> session (\<lambda>i. crash_obs ''f'') [demo_call ''t/2'' ''k2'', demo_call ''t/3'' ''k3'']
         (snd (interesting (\<lambda>i. crash_obs ''f'') (demo_call ''t/1'' ''k1'')
                 (init ''/tmp/tc/test.html'' (demo_state\<lparr>skip := 2\<rparr>))))
       = ([Inr False, Inr False],
          (snd (interesting (\<lambda>i. crash_obs ''f'') (demo_call ''t/1'' ''k1'')
                  (init ''/tmp/tc/test.html'' (demo_state\<lparr>skip := 2\<rparr>))))\<lparr>skipped := Some 2\<rparr>)"
proof -
  define s0 where "s0 = init ''/tmp/tc/test.html'' (demo_state\<lparr>skip := 2\<rparr>)"
  define w :: "nat \<Rightarrow> trial_obs" where "w = (\<lambda>i. crash_obs ''f'')"
  define c1 where "c1 = demo_call ''t/1'' ''k1''"
  have h0: "skip s0 = int 2" "skipped s0 = None"
    by (simp_all add: s0_def init_def demo_state_def)
  have first: "interesting w c1 s0 = evaluate w c1 (s0\<lparr>skipped := Some 0\<rparr>)"
    using skip_after_first [OF h0(1), where world = w and c = c1] h0(2) by simp
  have r1: "fst (interesting w c1 s0) = Inr True"
    unfolding first
    by (simp add: s0_def w_def c1_def init_def basename_def call_defs trial_defs demo_defs)
  define s1 where "s1 = snd (interesting w c1 s0)"
  have "evaluate w c1 (s0\<lparr>skipped := Some 0\<rparr>) = (fst (interesting w c1 s0), s1)"
    unfolding s1_def first by simp
  then have h1: "skip s1 = int 2" "skipped s1 = Some 0"
    using skip_after_first [where st = "s0\<lparr>skipped := Some 0\<rparr>" and N = 2
        and world = w and c = c1] h0(1) by auto
  have "session w [demo_call ''t/2'' ''k2'', demo_call ''t/3'' ''k3''] s1
          = (replicate 2 (Inr False), s1\<lparr>skipped := Some (int 2)\<rparr>)"
    using skip_after_first [OF h1(1),
        where cs = "[demo_call ''t/2'' ''k2'', demo_call ''t/3'' ''k3'']" and world = w]
      h1(2) by simp
  then show ?thesis
    using r1 unfolding s1_def s0_def w_def c1_def by (simp add: replicate_2)
qed

text \<open>Claim C5 as it is stated fails at the first call: with \<open>skip = 1\<close> the first call
  after \<^verbatim>\<open>init\<close> runs a trial and returns true, and it is the second call that
  returns false without a trial.\<close>

theorem skip_after_first_counterexample:
  "skip (init ''/tmp/tc/test.html'' (demo_state\<lparr>skip := 1\<rparr>)) = 1
   \<and> fst (interesting (\<lambda>i. crash_obs ''f'') (demo_call ''t/1'' ''k1'')
          (init ''/tmp/tc/test.html'' (demo_state\<lparr>skip := 1\<rparr>))) = Inr True
   \<and> history (snd (interesting (\<lambda>i. crash_obs ''f'') (demo_call ''t/1'' ''k1'')
          (init ''/tmp/tc/test.html'' (demo_state\<lparr>skip := 1\<rparr>)))) = [Inr True]
   \<and> fst (interesting (\<lambda>i. crash_obs ''f'') (demo_call ''t/2'' ''k2'')
          (snd (interesting (\<lambda>i. crash_obs ''f'') (demo_call ''t/1'' ''k1'')
                  (init ''/tmp/tc/test.html'' (demo_state\<lparr>skip := 1\<rparr>))))) = Inr False
   \<and> history (snd (interesting (\<lambda>i. crash_obs ''f'') (demo_call ''t/2'' ''k2'')
          (snd (interesting (\<lambda>i. crash_obs ''f'') (demo_call ''t/1'' ''k1'')
                  (init ''/tmp/tc/test.html'' (demo_state\<lparr>skip := 1\<rparr>)))))) = [Inr True]"
  by (simp add: init_def basename_def call_defs trial_defs demo_defs)

section \<open>A cached verdict\<close>

lemma takeWhile_stop:
  "\<forall>x\<in>set xs. P x \<Longrightarrow> \<not> P y \<Longrightarrow> takeWhile P (xs @ y # ys) = xs"
  by (induction xs) auto

lemma basename_join:
  assumes "CHR ''/'' \<notin> set n"
  shows "basename (join d n) = n"
proof -
  have n: "\<forall>x\<in>set (rev n). x \<noteq> CHR ''/''" using assms by auto
  have hd: "\<not> (n \<noteq> [] \<and> hd n = CHR ''/'')" using assms by (cases n) auto
  have j: "join d n = (if d = [] \<or> last d = CHR ''/'' then d @ n else d @ ''/'' @ n)"
    using hd unfolding join_def by (simp only: if_False)
  have full: "takeWhile (\<lambda>c. c \<noteq> CHR ''/'') (rev n) = rev n"
    using n by (simp add: takeWhile_eq_all_conv)
  show ?thesis
  proof (cases "d = []")
    case True
    then show ?thesis unfolding j by (simp add: basename_def full)
  next
    case False
    then obtain y ys where r: "rev d = y # ys" by (cases "rev d") auto
    then have l: "last d = y" using False by (metis last_rev list.sel(1) rev_rev_ident hd_rev)
    show ?thesis
    proof (cases "y = CHR ''/''")
      case True
      have "takeWhile (\<lambda>c. c \<noteq> CHR ''/'') (rev n @ y # ys) = rev n"
        using takeWhile_stop [of "rev n" "\<lambda>c. c \<noteq> CHR ''/''" y ys] n True by simp
      then show ?thesis unfolding j using False l True r by (simp add: basename_def)
    next
      case ny: False
      have "takeWhile (\<lambda>c. c \<noteq> CHR ''/'') (rev n @ CHR ''/'' # rev d) = rev n"
        using takeWhile_stop [of "rev n" "\<lambda>c. c \<noteq> CHR ''/''" "CHR ''/''" "rev d"] n by simp
      then show ?thesis unfolding j using False l ny by (simp add: basename_def)
    qed
  qed
qed

lemma after_underscore:
  "CHR ''_'' \<notin> set b \<Longrightarrow>
     tl (dropWhile (\<lambda>ch. ch \<noteq> CHR ''_'') (b @ ''_'' @ sfx)) = sfx"
  by (induction b) auto

lemma after_underscore_inj:
  "tl (dropWhile (\<lambda>ch. ch \<noteq> CHR ''_'') ((b @ ''_'') @ x))
     = tl (dropWhile (\<lambda>ch. ch \<noteq> CHR ''_'') ((b @ ''_'') @ y)) \<Longrightarrow> x = y"
  by (induction b) (auto split: if_splits)

lemma replay_keeps:
  "history (snd (replay new G st)) = history st
   \<and> result_cache (snd (replay new G st)) = result_cache st"
proof (induction G arbitrary: st)
  case Nil
  show ?case by simp
next
  case (Cons entry G)
  obtain path kind where e: "entry = (path, kind)" by (cases entry)
  show ?case
    unfolding e
    by (cases kind) (auto simp: Let_def log_event_def Cons.IH split: option.splits)
qed

lemma replay_copies:
  assumes "\<forall>e\<in>set G. CHR ''_'' \<in> set (basename (fst e))"
      and "distinct (map (\<lambda>e. destination new (fst e)) G)"
      and "\<forall>e\<in>set G. destination new (fst e) \<in> made st \<longleftrightarrow> destination new (fst e) \<in> m"
  shows "fst (replay new G st) =
           (case dropWhile (copied new m) G of
              [] \<Rightarrow> None
            | (path, kind) # rest \<Rightarrow>
                Some (if kind = Other
                      then RuntimeError (''Cannot copy non-file/non-directory: '' @ path)
                      else OSError (''File exists: '' @ destination new path)))
       \<and> trace (snd (replay new G st)) =
           trace st @ map (copy_call new) (takeWhile (copied new m) G)
           @ (case dropWhile (copied new m) G of
                [] \<Rightarrow> []
              | (path, kind) # rest \<Rightarrow>
                  if kind = Other then [] else [CopyTree path (destination new path)])"
  using assms
proof (induction G arbitrary: st)
  case Nil
  show ?case by simp
next
  case (Cons entry G)
  obtain path kind where e: "entry = (path, kind)" by (cases entry)
  have us: "CHR ''_'' \<in> set (basename path)" using Cons.prems(1) e by simp
  have sp: "split1 (basename path)
              = Some (tl (dropWhile (\<lambda>ch. ch \<noteq> CHR ''_'') (basename path)))"
    using us by (simp add: split1_def)
  define dst where "dst = destination new path"
  have dst: "new @ CHR ''_'' # tl (dropWhile (\<lambda>ch. ch \<noteq> CHR ''_'') (basename path)) = dst"
    by (simp add: dst_def destination_def)
  have p1: "\<forall>e\<in>set G. CHR ''_'' \<in> set (basename (fst e))" using Cons.prems(1) by simp
  have p2: "distinct (map (\<lambda>e. destination new (fst e)) G)" using Cons.prems(2) by simp
  have fresh: "\<forall>e\<in>set G. destination new (fst e) \<noteq> dst"
  proof
    fix x assume x: "x \<in> set G"
    have "destination new path \<notin> (\<lambda>e. destination new (fst e)) ` set G"
      using Cons.prems(2) e by simp
    then show "destination new (fst x) \<noteq> dst"
      using x unfolding dst_def by (metis image_eqI)
  qed
  have ag: "dst \<in> made st \<longleftrightarrow> dst \<in> m" using Cons.prems(3) e by (simp add: dst_def)
  show ?case
  proof (cases kind)
    case File
    define st1 where "st1 = log_event [Copy path dst] st"
    have c: "copied new m entry" by (simp add: copied_def e File)
    have p3: "\<forall>e\<in>set G. destination new (fst e) \<in> made st1 \<longleftrightarrow> destination new (fst e) \<in> m"
      using Cons.prems(3) by (simp add: st1_def log_event_def)
    note ih = Cons.IH [OF p1 p2 p3]
    have r: "replay new (entry # G) st = replay new G st1"
      by (simp add: e File sp dst st1_def)
    have t: "trace st1 = trace st @ [copy_call new entry]"
      by (simp add: st1_def log_event_def copy_call_def e File dst_def)
    show ?thesis
      unfolding r using ih c t by simp
  next
    case Directory
    show ?thesis
    proof (cases "dst \<in> made st")
      case True
      have c: "\<not> copied new m entry" using True ag by (simp add: copied_def e Directory dst_def)
      have r: "replay new (entry # G) st
                 = (Some (OSError (''File exists: '' @ dst)), log_event [CopyTree path dst] st)"
        using True by (simp add: e Directory sp dst Let_def)
      show ?thesis
        unfolding r using c by (simp add: e Directory log_event_def dst_def)
    next
      case False
      define st1 where "st1 = (log_event [CopyTree path dst] st)
                                \<lparr>made := insert dst (made (log_event [CopyTree path dst] st))\<rparr>"
      have c: "copied new m entry" using False ag by (simp add: copied_def e Directory dst_def)
      have p3: "\<forall>e\<in>set G. destination new (fst e) \<in> made st1 \<longleftrightarrow> destination new (fst e) \<in> m"
        using Cons.prems(3) fresh by (simp add: st1_def log_event_def)
      note ih = Cons.IH [OF p1 p2 p3]
      have r: "replay new (entry # G) st = replay new G st1"
        using False by (simp add: e Directory sp dst Let_def st1_def)
      have t: "trace st1 = trace st @ [copy_call new entry]"
        by (simp add: st1_def log_event_def copy_call_def e Directory dst_def)
      show ?thesis
        unfolding r using ih c t by simp
    qed
  next
    case Other
    have c: "\<not> copied new m entry" by (simp add: copied_def e Other)
    have r: "replay new (entry # G) st
               = (Some (RuntimeError (''Cannot copy non-file/non-directory: '' @ path)), st)"
      by (simp add: e Other)
    show ?thesis
      unfolding r using c by (simp add: e Other)
  qed
qed

lemma begins_with: "take (length b) n = b \<longleftrightarrow> (\<exists>sfx. n = b @ sfx)"
  by (metis append_eq_conv_conj append_take_drop_id)

lemma glob_plain:
  assumes "\<not> has_magic q"
  shows "glob q c =
           map (\<lambda>(name, kind). (join (dirname q) name, kind))
             (filter (\<lambda>(name, kind). \<exists>sfx. name = basename q @ ''_'' @ sfx)
                (listdir c (listed_dir q)))"
proof -
  have "(\<lambda>(name, kind). take (length (basename q @ ''_'')) name = basename q @ ''_'')
          = (\<lambda>(name :: string, kind :: entry_kind). \<exists>sfx. name = basename q @ ''_'' @ sfx)"
    using begins_with [of "basename q @ ''_''"] by (auto simp: fun_eq_iff)
  then show ?thesis
    using assms unfolding glob_def Let_def listed_dir_def by simp
qed

lemma glob_entries:
  assumes "\<not> has_magic q" and "listed (listdir c (listed_dir q))"
      and "e \<in> set (glob q c)"
  shows "\<exists>sfx. fst e = join (dirname q) (basename q @ ''_'' @ sfx)
           \<and> CHR ''/'' \<notin> set (basename q @ ''_'' @ sfx)
           \<and> basename (fst e) = basename q @ ''_'' @ sfx"
proof -
  from assms(3) obtain name kind sfx where
    n: "(name, kind) \<in> set (listdir c (listed_dir q))" "name = basename q @ ''_'' @ sfx"
       "e = (join (dirname q) name, kind)"
    unfolding glob_plain [OF assms(1)] by auto
  have "CHR ''/'' \<notin> set name"
    using assms(2) n(1) by (auto simp: listed_def list_all_iff)
  then show ?thesis
    using n(2,3) basename_join [of name "dirname q"] by auto
qed

lemma glob_underscore:
  assumes "\<not> has_magic q" and "listed (listdir c (listed_dir q))"
  shows "\<forall>e\<in>set (glob q c). CHR ''_'' \<in> set (basename (fst e))"
proof
  fix e assume "e \<in> set (glob q c)"
  from glob_entries [OF assms this] obtain sfx where
    "basename (fst e) = basename q @ ''_'' @ sfx" by blast
  then show "CHR ''_'' \<in> set (basename (fst e))" by simp
qed

lemma glob_distinct:
  assumes "\<not> has_magic q" and "listed (listdir c (listed_dir q))"
  shows "distinct (map (\<lambda>e. destination new (fst e)) (glob q c))"
proof -
  define F where "F = filter (\<lambda>(name :: string, kind :: entry_kind). \<exists>sfx. name = basename q @ ''_'' @ sfx)
                (listdir c (listed_dir q))"
  define h where "h = (\<lambda>name. destination new (join (dirname q) name))"
  have g: "glob q c = map (\<lambda>(name, kind). (join (dirname q) name, kind)) F"
    unfolding F_def by (rule glob_plain [OF assms(1)])
  have m: "map (\<lambda>e. destination new (fst e)) (glob q c) = map h (map fst F)"
    unfolding g h_def by (simp add: case_prod_unfold comp_def)
  have d: "distinct (map fst F)"
    using assms(2) unfolding F_def listed_def by (simp add: distinct_map_filter)
  have inj: "inj_on h (set (map fst F))"
  proof (rule inj_onI)
    fix x y assume x: "x \<in> set (map fst F)" and y: "y \<in> set (map fst F)" and eq: "h x = h y"
    from x obtain sx where sx: "x = basename q @ ''_'' @ sx" unfolding F_def by auto
    from y obtain sy where sy: "y = basename q @ ''_'' @ sy" unfolding F_def by auto
    have nx: "CHR ''/'' \<notin> set x" using x assms(2) unfolding F_def listed_def
      by (auto simp: list_all_iff)
    have ny: "CHR ''/'' \<notin> set y" using y assms(2) unfolding F_def listed_def
      by (auto simp: list_all_iff)
    have "tl (dropWhile (\<lambda>ch. ch \<noteq> CHR ''_'') x) = tl (dropWhile (\<lambda>ch. ch \<noteq> CHR ''_'') y)"
      using eq unfolding h_def destination_def basename_join [OF nx] basename_join [OF ny]
      by simp
    then have "sx = sy"
      using after_underscore_inj [of "basename q" sx sy] unfolding sx sy by simp
    then show "x = y" using sx sy by simp
  qed
  have "distinct (map h (map fst F))"
    using d inj by (subst distinct_map) blast
  then show ?thesis unfolding m .
qed

lemma destination_same_suffix:
  assumes "CHR ''_'' \<notin> set (basename q)" and "CHR ''/'' \<notin> set sfx"
  shows "destination new (join (dirname q) (basename q @ ''_'' @ sfx)) = new @ ''_'' @ sfx"
proof -
  have "CHR ''/'' \<notin> set (basename q)"
    unfolding basename_def using set_takeWhileD by fastforce
  then have "CHR ''/'' \<notin> set (basename q @ ''_'' @ sfx)" using assms(2) by simp
  from basename_join [OF this]
  show ?thesis
    unfolding destination_def using after_underscore [OF assms(1), of sfx] by simp
qed

lemma join_suffix:
  assumes "join (dirname q) (basename q) = q"
  shows "join (dirname q) (basename q @ ''_'' @ sfx) = q @ ''_'' @ sfx"
proof -
  have nb: "CHR ''/'' \<notin> set (basename q)"
    unfolding basename_def using set_takeWhileD by fastforce
  have a: "\<not> (basename q \<noteq> [] \<and> hd (basename q) = CHR ''/'')"
    using nb by (cases "basename q") auto
  have b: "\<not> (basename q @ ''_'' @ sfx \<noteq> [] \<and> hd (basename q @ ''_'' @ sfx) = CHR ''/'')"
    using nb by (cases "basename q") auto
  have "join (dirname q) (basename q @ ''_'' @ sfx) = join (dirname q) (basename q) @ ''_'' @ sfx"
    using a b unfolding join_def by (simp only: if_False) simp
  then show ?thesis using assms by simp
qed

text \<open>Claim C4, amended. A call of \<^verbatim>\<open>interesting\<close> that is not skipped and finds the
  content hash of the candidate in the cache runs no trial and leaves the cache as it
  is, and a verdict that it returns is the cached one. A cached false is returned with
  nothing done. For a cached true whose prefix holds no wildcard of \<^verbatim>\<open>glob\<close>, the
  entries that \<^verbatim>\<open>glob\<close> finds are those of the directory of the prefix whose name is
  the last component of the prefix, an underscore and a suffix, in the order of the
  listing (the paths \<open>q_suffix\<close> for a prefix \<open>q\<close> that \<^verbatim>\<open>os.path.split\<close> and
  \<^verbatim>\<open>os.path.join\<close> give back). They are copied in that order, a file by \<^verbatim>\<open>copy\<close>
  and a directory by \<^verbatim>\<open>copytree\<close>; when each is a file, or a directory whose
  destination does not exist yet, the call returns true; the first that is neither a
  file nor a directory raises the \<^verbatim>\<open>RuntimeError\<close>, and the first directory whose
  destination exists makes \<^verbatim>\<open>copytree\<close> raise, the entries before it having been
  copied. When the last component of the cached prefix has no underscore, the
  destination of an entry is the new prefix, an underscore and the same suffix.\<close>

theorem cached_verdict:
  assumes "interesting world c st = (r, st')"
      and "\<not> (skip st \<noteq> 0 \<and> (\<exists>k. skipped st = Some k \<and> k < skip st))"
      and "use_result_cache st"
      and "result_cache st (cache_key c) = Some (verdict, q)"
  shows "history st' = history st \<and> result_cache st' = result_cache st
     \<and> (\<forall>b. r = Inr b \<longrightarrow> b = verdict)
     \<and> (\<not> verdict \<longrightarrow> r = Inr False \<and> trace st' = trace st \<and> made st' = made st)
     \<and> (verdict \<and> \<not> has_magic q \<and> listed (listdir c (listed_dir q)) \<longrightarrow>
          (list_all (copied (temp_prefix c) (made st)) (glob q c) \<longrightarrow>
             r = Inr True
             \<and> trace st' = trace st @ map (copy_call (temp_prefix c)) (glob q c))
          \<and> (\<forall>path kind rest.
                dropWhile (copied (temp_prefix c) (made st)) (glob q c) = (path, kind) # rest \<longrightarrow>
                r = Inl (if kind = Other
                         then RuntimeError (''Cannot copy non-file/non-directory: '' @ path)
                         else OSError (''File exists: '' @ destination (temp_prefix c) path))
                \<and> trace st' = trace st
                     @ map (copy_call (temp_prefix c))
                         (takeWhile (copied (temp_prefix c) (made st)) (glob q c))
                     @ (if kind = Other then []
                        else [CopyTree path (destination (temp_prefix c) path)])))
     \<and> (\<not> has_magic q \<longrightarrow>
          glob q c =
            map (\<lambda>(name, kind). (join (dirname q) name, kind))
              (filter (\<lambda>(name, kind). \<exists>sfx. name = basename q @ ''_'' @ sfx)
                 (listdir c (listed_dir q))))
     \<and> (\<forall>sfx. CHR ''/'' \<notin> set sfx \<longrightarrow>
          (join (dirname q) (basename q) = q \<longrightarrow>
             join (dirname q) (basename q @ ''_'' @ sfx) = q @ ''_'' @ sfx)
          \<and> (CHR ''_'' \<notin> set (basename q) \<longrightarrow>
             destination (temp_prefix c) (join (dirname q) (basename q @ ''_'' @ sfx))
               = temp_prefix c @ ''_'' @ sfx))"
proof -
  define se where "se = (if skip st \<noteq> 0 \<and> skipped st = None then st\<lparr>skipped := Some 0\<rparr> else st)"
  define G where "G = glob q c"
  define C where "C = copied (temp_prefix c) (made st)"
  have se: "history se = history st" "trace se = trace st" "use_result_cache se"
    "result_cache se = result_cache st" "made se = made st"
    using assms(3) unfolding se_def by simp_all
  have "interesting world c st = evaluate world c se"
    using assms(2) unfolding interesting_def se_def by (auto split: option.splits)
  then have ev: "evaluate world c se = (r, st')" using assms(1) by simp
  have hit: "result_cache se (cache_key c) = Some (verdict, q)"
    using se(4) assms(4) by simp
  obtain x s1 where rp: "replay (temp_prefix c) G se = (x, s1)"
    by (cases "replay (temp_prefix c) G se")
  have cases: "(r, st') =
      (if verdict then (case x of Some e \<Rightarrow> (Inl e, s1) | None \<Rightarrow> (Inr True, s1))
       else (Inr False, se))"
    using ev se(3) hit unfolding evaluate_def Let_def
    by (auto simp: rp [unfolded G_def] split: option.splits if_splits)
  have keep: "history s1 = history st" "result_cache s1 = result_cache st"
    using replay_keeps [of "temp_prefix c" G se] rp se by simp_all
  have a: "history st' = history st \<and> result_cache st' = result_cache st"
    using cases se keep by (auto split: if_splits option.splits)
  have b: "\<forall>b. r = Inr b \<longrightarrow> b = verdict"
    using cases by (auto split: if_splits option.splits)
  have c: "\<not> verdict \<longrightarrow> r = Inr False \<and> trace st' = trace st \<and> made st' = made st"
    using cases se by (auto split: if_splits)
  have d: "verdict \<and> \<not> has_magic q \<and> listed (listdir c (listed_dir q)) \<longrightarrow>
          (list_all C G \<longrightarrow>
             r = Inr True \<and> trace st' = trace st @ map (copy_call (temp_prefix c)) G)
          \<and> (\<forall>path kind rest. dropWhile C G = (path, kind) # rest \<longrightarrow>
                r = Inl (if kind = Other
                         then RuntimeError (''Cannot copy non-file/non-directory: '' @ path)
                         else OSError (''File exists: '' @ destination (temp_prefix c) path))
                \<and> trace st' = trace st @ map (copy_call (temp_prefix c)) (takeWhile C G)
                     @ (if kind = Other then []
                        else [CopyTree path (destination (temp_prefix c) path)]))"
  proof
    assume h: "verdict \<and> \<not> has_magic q \<and> listed (listdir c (listed_dir q))"
    have us: "\<forall>e\<in>set G. CHR ''_'' \<in> set (basename (fst e))"
      unfolding G_def using glob_underscore h by blast
    have di: "distinct (map (\<lambda>e. destination (temp_prefix c) (fst e)) G)"
      unfolding G_def using glob_distinct h by blast
    have ag: "\<forall>e\<in>set G. destination (temp_prefix c) (fst e) \<in> made se
                \<longleftrightarrow> destination (temp_prefix c) (fst e) \<in> made st"
      using se(5) by simp
    note rc = replay_copies [OF us di ag, folded C_def, unfolded rp fst_conv snd_conv se(2)]
    have rs: "(r, st') = (case x of Some e \<Rightarrow> (Inl e, s1) | None \<Rightarrow> (Inr True, s1))"
      using cases h by simp
    have u: "list_all C G \<longrightarrow>
             r = Inr True \<and> trace st' = trace st @ map (copy_call (temp_prefix c)) G"
    proof
      assume all: "list_all C G"
      then have dw: "dropWhile C G = []" "takeWhile C G = G"
        by (simp_all add: list_all_iff takeWhile_eq_all_conv)
      have "x = None" "trace s1 = trace st @ map (copy_call (temp_prefix c)) G"
        using rc unfolding dw by simp_all
      then show "r = Inr True \<and> trace st' = trace st @ map (copy_call (temp_prefix c)) G"
        using rs by simp
    qed
    have v: "\<forall>path kind rest. dropWhile C G = (path, kind) # rest \<longrightarrow>
                r = Inl (if kind = Other
                         then RuntimeError (''Cannot copy non-file/non-directory: '' @ path)
                         else OSError (''File exists: '' @ destination (temp_prefix c) path))
                \<and> trace st' = trace st @ map (copy_call (temp_prefix c)) (takeWhile C G)
                     @ (if kind = Other then []
                        else [CopyTree path (destination (temp_prefix c) path)])"
    proof (intro allI impI)
      fix path kind rest
      assume dw: "dropWhile C G = (path, kind) # rest"
      have "x = Some (if kind = Other
                         then RuntimeError (''Cannot copy non-file/non-directory: '' @ path)
                         else OSError (''File exists: '' @ destination (temp_prefix c) path))"
        "trace s1 = trace st @ map (copy_call (temp_prefix c)) (takeWhile C G)
                     @ (if kind = Other then []
                        else [CopyTree path (destination (temp_prefix c) path)])"
        using rc unfolding dw by simp_all
      then show "r = Inl (if kind = Other
                         then RuntimeError (''Cannot copy non-file/non-directory: '' @ path)
                         else OSError (''File exists: '' @ destination (temp_prefix c) path))
                \<and> trace st' = trace st @ map (copy_call (temp_prefix c)) (takeWhile C G)
                     @ (if kind = Other then []
                        else [CopyTree path (destination (temp_prefix c) path)])"
        using rs by simp
    qed
    show "(list_all C G \<longrightarrow>
             r = Inr True \<and> trace st' = trace st @ map (copy_call (temp_prefix c)) G)
          \<and> (\<forall>path kind rest. dropWhile C G = (path, kind) # rest \<longrightarrow>
                r = Inl (if kind = Other
                         then RuntimeError (''Cannot copy non-file/non-directory: '' @ path)
                         else OSError (''File exists: '' @ destination (temp_prefix c) path))
                \<and> trace st' = trace st @ map (copy_call (temp_prefix c)) (takeWhile C G)
                     @ (if kind = Other then []
                        else [CopyTree path (destination (temp_prefix c) path)]))"
      using u v by blast
  qed
  have e: "\<not> has_magic q \<longrightarrow>
          glob q c =
            map (\<lambda>(name, kind). (join (dirname q) name, kind))
              (filter (\<lambda>(name, kind). \<exists>sfx. name = basename q @ ''_'' @ sfx)
                 (listdir c (listed_dir q)))"
    using glob_plain by blast
  have f: "\<forall>sfx. CHR ''/'' \<notin> set sfx \<longrightarrow>
          (join (dirname q) (basename q) = q \<longrightarrow>
             join (dirname q) (basename q @ ''_'' @ sfx) = q @ ''_'' @ sfx)
          \<and> (CHR ''_'' \<notin> set (basename q) \<longrightarrow>
             destination (temp_prefix c) (join (dirname q) (basename q @ ''_'' @ sfx))
               = temp_prefix c @ ''_'' @ sfx)"
    using join_suffix destination_same_suffix by blast
  show ?thesis
    using a b c d e f unfolding G_def C_def by blast
qed

theorem cached_verdict_witness:
  "fst (interesting demo_world
          (listing_call ''out/9''
             [(''7_logs'', Directory), (''7_test.html'', File), (''70_logs'', Directory)])
          (cached_state ''out/7'')) = Inr True
   \<and> trace (snd (interesting demo_world
          (listing_call ''out/9''
             [(''7_logs'', Directory), (''7_test.html'', File), (''70_logs'', Directory)])
          (cached_state ''out/7'')))
       = [CopyTree ''out/7_logs'' ''out/9_logs'', Copy ''out/7_test.html'' ''out/9_test.html'']
   \<and> history (snd (interesting demo_world
          (listing_call ''out/9''
             [(''7_logs'', Directory), (''7_test.html'', File), (''70_logs'', Directory)])
          (cached_state ''out/7''))) = []
   \<and> fst (interesting demo_world
          (listing_call ''out/9'' [(''7_logs'', Directory), (''7_sock'', Other)])
          (cached_state ''out/7''))
       = Inl (RuntimeError ''Cannot copy non-file/non-directory: out/7_sock'')
   \<and> fst (interesting demo_world
          (listing_call ''out/7'' [(''7_logs'', Directory)])
          (cached_state ''out/7''))
       = Inl (OSError ''File exists: out/7_logs'')"
proof -
  define c1 where "c1 = listing_call ''out/9''
             [(''7_logs'', Directory), (''7_test.html'', File), (''70_logs'', Directory)]"
  define c2 where "c2 = listing_call ''out/9'' [(''7_logs'', Directory), (''7_sock'', Other)]"
  define c3 where "c3 = listing_call ''out/7'' [(''7_logs'', Directory)]"
  define sc where "sc = cached_state ''out/7''"
  have h: "\<not> (skip sc \<noteq> 0 \<and> (\<exists>k. skipped sc = Some k \<and> k < skip sc))" "use_result_cache sc"
    "trace sc = []" "history sc = []" "made sc = {''out/7_logs''}" "\<not> has_magic ''out/7''"
    by (simp_all add: sc_def demo_state_def replay_defs)
  have k: "result_cache sc (cache_key c1) = Some (True, ''out/7'')"
    "result_cache sc (cache_key c2) = Some (True, ''out/7'')"
    "result_cache sc (cache_key c3) = Some (True, ''out/7'')"
    by (simp_all add: sc_def c1_def c2_def c3_def demo_state_def replay_defs)
  have l: "listed (listdir c1 (listed_dir ''out/7''))" "listed (listdir c2 (listed_dir ''out/7''))"
    "listed (listdir c3 (listed_dir ''out/7''))"
    by (simp_all add: c1_def c2_def c3_def replay_defs)
  have g1: "glob ''out/7'' c1 = [(''out/7_logs'', Directory), (''out/7_test.html'', File)]"
    by (simp add: c1_def replay_defs)
  have g2: "glob ''out/7'' c2 = [(''out/7_logs'', Directory), (''out/7_sock'', Other)]"
    by (simp add: c2_def replay_defs)
  have g3: "glob ''out/7'' c3 = [(''out/7_logs'', Directory)]"
    by (simp add: c3_def replay_defs)
  have p: "temp_prefix c1 = ''out/9''" "temp_prefix c2 = ''out/9''" "temp_prefix c3 = ''out/7''"
    by (simp_all add: c1_def c2_def c3_def listing_call_def)
  note t1 = cached_verdict [OF prod.collapse [symmetric] h(1,2) k(1), where world = demo_world]
  have r1: "fst (interesting demo_world c1 sc) = Inr True"
    "trace (snd (interesting demo_world c1 sc))
       = [CopyTree ''out/7_logs'' ''out/9_logs'', Copy ''out/7_test.html'' ''out/9_test.html'']"
    "history (snd (interesting demo_world c1 sc)) = []"
    using t1 h(3,4,5,6) l(1) unfolding g1 p
    by (simp_all add: copied_def copy_call_def destination_def basename_def)
  note t2 = cached_verdict [OF prod.collapse [symmetric] h(1,2) k(2), where world = demo_world]
  have r2: "fst (interesting demo_world c2 sc)
       = Inl (RuntimeError ''Cannot copy non-file/non-directory: out/7_sock'')"
    using t2 h(5,6) l(2) unfolding g2 p
    by (simp add: copied_def copy_call_def destination_def basename_def)
  note t3 = cached_verdict [OF prod.collapse [symmetric] h(1,2) k(3), where world = demo_world]
  have r3: "fst (interesting demo_world c3 sc) = Inl (OSError ''File exists: out/7_logs'')"
    using t3 h(5,6) l(3) unfolding g3 p
    by (simp add: copied_def copy_call_def destination_def basename_def)
  show ?thesis
    using r1 r2 r3 unfolding c1_def c2_def c3_def sc_def by simp
qed


text \<open>Claim C4 as it is stated fails in two places. A skipped call returns false
  whatever the cache holds: with \<open>skip = 1\<close> the first call caches true under \<open>k1\<close> and
  the second call, for the same content, returns false. And the suffix is cut from the
  base name of the entry at its first underscore, so for the cached prefix
  \<^verbatim>\<open>out/run_1\<close> the entry \<^verbatim>\<open>out/run_1_logs\<close> is copied to
  \<^verbatim>\<open>out/run_2_1_logs\<close>, not \<^verbatim>\<open>out/run_2_logs\<close>.\<close>

theorem cached_verdict_counterexample:
  "result_cache (snd (interesting demo_world (demo_call ''t/1'' ''k1'')
                   (init ''/tmp/tc/test.html'' (demo_state\<lparr>skip := 1\<rparr>)))) ''k1''
     = Some (True, ''t/1'')
   \<and> fst (interesting demo_world (demo_call ''t/2'' ''k1'')
            (snd (interesting demo_world (demo_call ''t/1'' ''k1'')
                   (init ''/tmp/tc/test.html'' (demo_state\<lparr>skip := 1\<rparr>))))) = Inr False
   \<and> fst (interesting demo_world
            (listing_call ''out/run_2'' [(''run_1_logs'', Directory)])
            (cached_state ''out/run_1'')) = Inr True
   \<and> trace (snd (interesting demo_world
            (listing_call ''out/run_2'' [(''run_1_logs'', Directory)])
            (cached_state ''out/run_1'')))
     = [CopyTree ''out/run_1_logs'' ''out/run_2_1_logs'']"
proof -
  have a: "result_cache (snd (interesting demo_world (demo_call ''t/1'' ''k1'')
                   (init ''/tmp/tc/test.html'' (demo_state\<lparr>skip := 1\<rparr>)))) ''k1''
     = Some (True, ''t/1'')
   \<and> fst (interesting demo_world (demo_call ''t/2'' ''k1'')
            (snd (interesting demo_world (demo_call ''t/1'' ''k1'')
                   (init ''/tmp/tc/test.html'' (demo_state\<lparr>skip := 1\<rparr>))))) = Inr False"
    by (simp add: init_def basename_def call_defs trial_defs demo_defs demo_world_def)
  have b: "fst (interesting demo_world
            (listing_call ''out/run_2'' [(''run_1_logs'', Directory)])
            (cached_state ''out/run_1'')) = Inr True
   \<and> trace (snd (interesting demo_world
            (listing_call ''out/run_2'' [(''run_1_logs'', Directory)])
            (cached_state ''out/run_1'')))
     = [CopyTree ''out/run_1_logs'' ''out/run_2_1_logs'']"
    by (simp add: interesting_def evaluate_def log_event_def replay_defs demo_state_def Let_def)
  show ?thesis using a b by simp
qed

section \<open>Timeouts only shrink\<close>

text \<open>Claim C6. \<^verbatim>\<open>update_timeout(elapsed)\<close> sets the idle timeout to
  \<open>max 10 (min (1.5 * elapsed) idle_timeout)\<close> only when that is smaller than the
  current value, and the iteration timeout to \<open>max 10 (min (2 * elapsed) iter_timeout)\<close>
  only when that is smaller; an elapsed time of 5 with an idle timeout of 60 gives 10;
  neither timeout grows, in \<^verbatim>\<open>update_timeout\<close>, in a whole call of
  \<^verbatim>\<open>interesting\<close> or in \<^verbatim>\<open>init\<close>; and exactly when the iteration timeout
  shrinks, the server (if there is one) is closed and discarded, so that the next trial
  builds one from the new timeout (the new timeout itself without the harness, ten
  seconds more with it, as every server of \<^verbatim>\<open>_run\<close> is built).\<close>

theorem update_timeout_shrinks:
  "idle_timeout (update_timeout e st)
     = (if max 10 (min (e * 1.5) (idle_timeout st)) < idle_timeout st
        then max 10 (min (e * 1.5) (idle_timeout st)) else idle_timeout st)
   \<and> iter_timeout (update_timeout e st)
     = (if max 10 (min (e * 2) (iter_timeout st)) < iter_timeout st
        then max 10 (min (e * 2) (iter_timeout st)) else iter_timeout st)
   \<and> (idle_timeout st = 60 \<longrightarrow> idle_timeout (update_timeout 5 st) = 10)
   \<and> idle_timeout (update_timeout e st) \<le> idle_timeout st
   \<and> iter_timeout (update_timeout e st) \<le> iter_timeout st
   \<and> (\<forall>world c r st'. interesting world c st = (r, st') \<longrightarrow>
         idle_timeout st' \<le> idle_timeout st \<and> iter_timeout st' \<le> iter_timeout st)
   \<and> (\<forall>path. idle_timeout (init path st) = idle_timeout st
         \<and> iter_timeout (init path st) = iter_timeout st)
   \<and> (iter_timeout (update_timeout e st) < iter_timeout st \<longrightarrow>
         server (update_timeout e st) = None
         \<and> trace (update_timeout e st) = trace st @ (if server st = None then [] else [ServerClose])
         \<and> (\<forall>p obs r st'. run p obs (update_timeout e st) = (r, st') \<longrightarrow>
               (\<exists>evs. trace st' = trace (update_timeout e st)
                  @ ServerCreate (if no_harness st then iter_timeout (update_timeout e st)
                                  else iter_timeout (update_timeout e st) + 10) # evs)))
   \<and> (\<not> iter_timeout (update_timeout e st) < iter_timeout st \<longrightarrow>
         server (update_timeout e st) = server st \<and> trace (update_timeout e st) = trace st)"
proof -
  have f: "idle_timeout (update_timeout x st)
             = (if new_poll_timeout x st < idle_timeout st
                then new_poll_timeout x st else idle_timeout st)" for x
    unfolding update_timeout_eq by simp
  have g: "iter_timeout (update_timeout e st)
             = (if new_iter_timeout e st < iter_timeout st
                then new_iter_timeout e st else iter_timeout st)"
    unfolding update_timeout_eq by simp
  have s: "server (update_timeout e st)
             = (if new_iter_timeout e st < iter_timeout st then None else server st)"
    unfolding update_timeout_eq by simp
  have t: "trace (update_timeout e st)
             = (if new_iter_timeout e st < iter_timeout st \<and> server st \<noteq> None
                then trace st @ [ServerClose] else trace st)"
    unfolding update_timeout_eq by simp
  have h: "no_harness (update_timeout e st) = no_harness st"
    unfolding update_timeout_eq by simp
  have c1: "idle_timeout (update_timeout e st)
     = (if max 10 (min (e * 1.5) (idle_timeout st)) < idle_timeout st
        then max 10 (min (e * 1.5) (idle_timeout st)) else idle_timeout st)"
    using f [of e] unfolding new_poll_timeout_def .
  have c2: "iter_timeout (update_timeout e st)
     = (if max 10 (min (e * 2) (iter_timeout st)) < iter_timeout st
        then max 10 (min (e * 2) (iter_timeout st)) else iter_timeout st)"
    using g unfolding new_iter_timeout_def .
  have c3: "idle_timeout st = 60 \<longrightarrow> idle_timeout (update_timeout 5 st) = 10"
    using f [of 5] by (simp add: new_poll_timeout_def)
  have c4: "idle_timeout (update_timeout e st) \<le> idle_timeout st"
    using f [of e] by simp
  have c5: "iter_timeout (update_timeout e st) \<le> iter_timeout st"
    using g by simp
  have c6: "\<forall>world c r st'. interesting world c st = (r, st') \<longrightarrow>
         idle_timeout st' \<le> idle_timeout st \<and> iter_timeout st' \<le> iter_timeout st"
    using interesting_timeouts by blast
  have c7: "\<forall>path. idle_timeout (init path st) = idle_timeout st
         \<and> iter_timeout (init path st) = iter_timeout st"
    by (simp add: init_def)
  have c8: "iter_timeout (update_timeout e st) < iter_timeout st \<longrightarrow>
         server (update_timeout e st) = None
         \<and> trace (update_timeout e st) = trace st @ (if server st = None then [] else [ServerClose])
         \<and> (\<forall>p obs r st'. run p obs (update_timeout e st) = (r, st') \<longrightarrow>
               (\<exists>evs. trace st' = trace (update_timeout e st)
                  @ ServerCreate (if no_harness st then iter_timeout (update_timeout e st)
                                  else iter_timeout (update_timeout e st) + 10) # evs))"
  proof
    assume a: "iter_timeout (update_timeout e st) < iter_timeout st"
    then have n: "new_iter_timeout e st < iter_timeout st" using g by (simp split: if_splits)
    have s0: "server (update_timeout e st) = None" using s n by simp
    have t0: "trace (update_timeout e st) = trace st @ (if server st = None then [] else [ServerClose])"
      using t n by simp
    have "\<exists>evs. trace st' = trace (update_timeout e st)
                  @ ServerCreate (if no_harness st then iter_timeout (update_timeout e st)
                                  else iter_timeout (update_timeout e st) + 10) # evs"
      if "run p obs (update_timeout e st) = (r, st')" for p obs r st'
      using run_builds_server [OF that s0] h by simp
    then show "server (update_timeout e st) = None
         \<and> trace (update_timeout e st) = trace st @ (if server st = None then [] else [ServerClose])
         \<and> (\<forall>p obs r st'. run p obs (update_timeout e st) = (r, st') \<longrightarrow>
               (\<exists>evs. trace st' = trace (update_timeout e st)
                  @ ServerCreate (if no_harness st then iter_timeout (update_timeout e st)
                                  else iter_timeout (update_timeout e st) + 10) # evs))"
      using s0 t0 by blast
  qed
  have c9: "\<not> iter_timeout (update_timeout e st) < iter_timeout st \<longrightarrow>
         server (update_timeout e st) = server st \<and> trace (update_timeout e st) = trace st"
    using g s t by (auto split: if_splits)
  show ?thesis
    using c1 c2 c3 c4 c5 c6 c7 c8 c9 by blast
qed


theorem update_timeout_shrinks_witness:
  "idle_timeout (update_timeout 5 (demo_state\<lparr>server := Some 70\<rparr>)) = 10
   \<and> iter_timeout (update_timeout 5 (demo_state\<lparr>server := Some 70\<rparr>)) = 10
   \<and> server (update_timeout 5 (demo_state\<lparr>server := Some 70\<rparr>)) = None
   \<and> trace (update_timeout 5 (demo_state\<lparr>server := Some 70\<rparr>)) = [ServerClose]
   \<and> (\<exists>evs. trace (snd (run ''t/1'' calm_obs (update_timeout 5 (demo_state\<lparr>server := Some 70\<rparr>))))
         = [ServerClose] @ ServerCreate 20 # evs)"
proof -
  define st where "st = demo_state\<lparr>server := Some 70\<rparr>"
  have a: "idle_timeout st = 60" "iter_timeout st = 60" "server st = Some 70" "trace st = []"
    "\<not> no_harness st"
    by (simp_all add: st_def demo_state_def)
  note t = update_timeout_shrinks [of 5 st]
  have i: "idle_timeout (update_timeout 5 st) = 10"
    using t a(1) by blast
  have j: "iter_timeout (update_timeout 5 st) = 10"
    using t a(2) by simp
  then have lt: "iter_timeout (update_timeout 5 st) < iter_timeout st"
    using a(2) by simp
  have k: "server (update_timeout 5 st) = None" "trace (update_timeout 5 st) = [ServerClose]"
    using t lt a(3,4) by simp_all
  have "\<forall>p obs r st'. run p obs (update_timeout 5 st) = (r, st') \<longrightarrow>
               (\<exists>evs. trace st' = trace (update_timeout 5 st)
                  @ ServerCreate (if no_harness st then iter_timeout (update_timeout 5 st)
                                  else iter_timeout (update_timeout 5 st) + 10) # evs)"
    using t lt by blast
  then have "\<exists>evs. trace (snd (run ''t/1'' calm_obs (update_timeout 5 st)))
         = trace (update_timeout 5 st)
            @ ServerCreate (if no_harness st then iter_timeout (update_timeout 5 st)
                            else iter_timeout (update_timeout 5 st) + 10) # evs"
    using prod.collapse by metis
  then have "\<exists>evs. trace (snd (run ''t/1'' calm_obs (update_timeout 5 st)))
         = [ServerClose] @ ServerCreate 20 # evs"
    using a(5) j k(2) by simp
  then show ?thesis
    using i j k unfolding st_def by simp
qed

section \<open>The idle monitor\<close>

lemma poll_loop_idle_iff:
  "poll_loop th iv s ts = Some (POLL_IDLE, rest) \<longleftrightarrow>
     (\<exists>samples final. ts = samples @ final # rest
        \<and> list_all (polling th iv s) samples
        \<and> (iv \<le> now final - s \<or> now final - s < iv \<and> below th final \<and> \<not> running final))"
proof
  show "poll_loop th iv s ts = Some (POLL_IDLE, rest) \<Longrightarrow>
     \<exists>samples final. ts = samples @ final # rest
        \<and> list_all (polling th iv s) samples
        \<and> (iv \<le> now final - s \<or> now final - s < iv \<and> below th final \<and> \<not> running final)"
  proof (induction ts)
    case Nil
    then show ?case by simp
  next
    case (Cons t ts)
    show ?case
    proof (cases "polling th iv s t")
      case True
      then have "poll_loop th iv s ts = Some (POLL_IDLE, rest)"
        using Cons.prems by (simp add: polling_def below_def)
      from Cons.IH [OF this] obtain samples final where
        "ts = samples @ final # rest" "list_all (polling th iv s) samples"
        "iv \<le> now final - s \<or> now final - s < iv \<and> below th final \<and> \<not> running final"
        by blast
      then show ?thesis
        using True by (intro exI [of _ "t # samples"] exI [of _ final]) simp
    next
      case False
      then have "ts = rest \<and> (iv \<le> now t - s \<or> now t - s < iv \<and> below th t \<and> \<not> running t)"
        using Cons.prems by (auto simp: polling_def below_def split: if_splits)
      then show ?thesis
        by (intro exI [of _ "[]"] exI [of _ t]) simp
    qed
  qed
next
  assume "\<exists>samples final. ts = samples @ final # rest
        \<and> list_all (polling th iv s) samples
        \<and> (iv \<le> now final - s \<or> now final - s < iv \<and> below th final \<and> \<not> running final)"
  then obtain samples final where ts: "ts = samples @ final # rest"
    and a: "list_all (polling th iv s) samples"
    and b: "iv \<le> now final - s \<or> now final - s < iv \<and> below th final \<and> \<not> running final"
    by blast
  have "poll_loop th iv s (samples @ final # rest) = Some (POLL_IDLE, rest)"
    using a b by (induction samples) (auto simp: polling_def below_def)
  then show "poll_loop th iv s ts = Some (POLL_IDLE, rest)" using ts by simp
qed

lemma poll_loop_busy_iff:
  "poll_loop th iv s ts = Some (POLL_BUSY, rest) \<longleftrightarrow>
     (\<exists>samples final. ts = samples @ final # rest
        \<and> list_all (polling th iv s) samples
        \<and> now final - s < iv \<and> \<not> below th final)"
proof
  show "poll_loop th iv s ts = Some (POLL_BUSY, rest) \<Longrightarrow>
     \<exists>samples final. ts = samples @ final # rest
        \<and> list_all (polling th iv s) samples
        \<and> now final - s < iv \<and> \<not> below th final"
  proof (induction ts)
    case Nil
    then show ?case by simp
  next
    case (Cons t ts)
    show ?case
    proof (cases "polling th iv s t")
      case True
      then have "poll_loop th iv s ts = Some (POLL_BUSY, rest)"
        using Cons.prems by (simp add: polling_def below_def)
      from Cons.IH [OF this] obtain samples final where
        "ts = samples @ final # rest" "list_all (polling th iv s) samples"
        "now final - s < iv \<and> \<not> below th final"
        by blast
      then show ?thesis
        using True by (intro exI [of _ "t # samples"] exI [of _ final]) simp
    next
      case False
      then have "ts = rest \<and> now t - s < iv \<and> \<not> below th t"
        using Cons.prems by (auto simp: polling_def below_def split: if_splits)
      then show ?thesis
        by (intro exI [of _ "[]"] exI [of _ t]) simp
    qed
  qed
next
  assume "\<exists>samples final. ts = samples @ final # rest
        \<and> list_all (polling th iv s) samples
        \<and> now final - s < iv \<and> \<not> below th final"
  then obtain samples final where ts: "ts = samples @ final # rest"
    and a: "list_all (polling th iv s) samples"
    and b: "now final - s < iv \<and> \<not> below th final"
    by blast
  have "poll_loop th iv s (samples @ final # rest) = Some (POLL_BUSY, rest)"
    using a b by (induction samples) (auto simp: polling_def below_def)
  then show "poll_loop th iv s ts = Some (POLL_BUSY, rest)" using ts by simp
qed

lemma split_last: "l \<noteq> [] \<Longrightarrow> l @ rest = butlast l @ last l # rest"
  by simp

lemma poll_idle_iff:
  "poll_for_idle th iv ts = Some (POLL_IDLE, rest) \<longleftrightarrow>
     (\<exists>p. ts = p @ rest \<and> answers_idle th iv p)"
proof
  assume a: "poll_for_idle th iv ts = Some (POLL_IDLE, rest)"
  then obtain start l where ts: "ts = start # l" by (cases ts) auto
  then have "poll_loop th iv (now start) l = Some (POLL_IDLE, rest)" using a by simp
  then obtain samples final where l: "l = samples @ final # rest"
    and c: "list_all (polling th iv (now start)) samples"
      "iv \<le> now final - now start
         \<or> now final - now start < iv \<and> below th final \<and> \<not> running final"
    unfolding poll_loop_idle_iff by blast
  show "\<exists>p. ts = p @ rest \<and> answers_idle th iv p"
    using ts l c by (intro exI [of _ "start # samples @ [final]"]) simp
next
  assume "\<exists>p. ts = p @ rest \<and> answers_idle th iv p"
  then obtain p where ts: "ts = p @ rest" and a: "answers_idle th iv p" by blast
  then obtain start l where p: "p = start # l" by (cases p) auto
  have l: "l \<noteq> []" "list_all (polling th iv (now start)) (butlast l)"
    "iv \<le> now (last l) - now start
       \<or> now (last l) - now start < iv \<and> below th (last l) \<and> \<not> running (last l)"
    using a p by simp_all
  have "poll_loop th iv (now start) (butlast l @ last l # rest) = Some (POLL_IDLE, rest)"
    unfolding poll_loop_idle_iff using l(2,3) by blast
  then show "poll_for_idle th iv ts = Some (POLL_IDLE, rest)"
    using ts p split_last [OF l(1), of rest] by simp
qed

lemma poll_busy_iff:
  "poll_for_idle th iv ts = Some (POLL_BUSY, rest) \<longleftrightarrow>
     (\<exists>p. ts = p @ rest \<and> answers_busy th iv p)"
proof
  assume a: "poll_for_idle th iv ts = Some (POLL_BUSY, rest)"
  then obtain start l where ts: "ts = start # l" by (cases ts) auto
  then have "poll_loop th iv (now start) l = Some (POLL_BUSY, rest)" using a by simp
  then obtain samples final where l: "l = samples @ final # rest"
    and c: "list_all (polling th iv (now start)) samples"
      "now final - now start < iv \<and> \<not> below th final"
    unfolding poll_loop_busy_iff by blast
  show "\<exists>p. ts = p @ rest \<and> answers_busy th iv p"
    using ts l c by (intro exI [of _ "start # samples @ [final]"]) simp
next
  assume "\<exists>p. ts = p @ rest \<and> answers_busy th iv p"
  then obtain p where ts: "ts = p @ rest" and a: "answers_busy th iv p" by blast
  then obtain start l where p: "p = start # l" by (cases p) auto
  have l: "l \<noteq> []" "list_all (polling th iv (now start)) (butlast l)"
    "now (last l) - now start < iv \<and> \<not> below th (last l)"
    using a p by simp_all
  have "poll_loop th iv (now start) (butlast l @ last l # rest) = Some (POLL_BUSY, rest)"
    unfolding poll_loop_busy_iff using l(2,3) by blast
  then show "poll_for_idle th iv ts = Some (POLL_BUSY, rest)"
    using ts p split_last [OF l(1), of rest] by simp
qed

lemma monitor_loop_ends:
  "monitor_loop th iv ts = Some (b, rest) \<Longrightarrow>
     \<exists>rounds check tail. ts = concat rounds @ check # tail @ rest
        \<and> list_all (busy_round th iv) rounds
        \<and> (if b then \<not> iteration_done check \<and> answers_idle th iv tail
            else iteration_done check \<and> tail = [])"
proof (induction th iv ts rule: monitor_loop.induct)
  case (1 th iv)
  then show ?case by simp
next
  case (2 th iv t ts)
  show ?case
  proof (cases "iteration_done t")
    case True
    then have "b = False" "ts = rest" using "2.prems" by simp_all
    then show ?thesis
      using True by (intro exI [of _ "[]"] exI [of _ t]) simp
  next
    case nd: False
    obtain r ts' where p: "poll_for_idle th iv ts = Some (r, ts')"
      using "2.prems" nd by (auto split: option.splits)
    show ?thesis
    proof (cases r)
      case POLL_IDLE
      then have e: "b = True" "ts' = rest" using "2.prems" nd p by simp_all
      obtain q where q: "ts = q @ rest" "answers_idle th iv q"
        using p POLL_IDLE e(2) poll_idle_iff [of th iv ts rest] by blast
      show ?thesis
        using nd q e(1) by (intro exI [of _ "[]"] exI [of _ t] exI [of _ q]) simp
    next
      case POLL_BUSY
      then have busy: "\<not> truthy r" by simp
      have m: "monitor_loop th iv ts' = Some (b, rest)" using "2.prems" nd p POLL_BUSY by simp
      from "2.IH" [OF nd p refl busy m] obtain rounds check tail where
        d: "ts' = concat rounds @ check # tail @ rest" "list_all (busy_round th iv) rounds"
           "if b then \<not> iteration_done check \<and> answers_idle th iv tail
            else iteration_done check \<and> tail = []"
        by blast
      obtain q where q: "ts = q @ ts'" "answers_busy th iv q"
        using p POLL_BUSY poll_busy_iff [of th iv ts ts'] by blast
      have "t # ts = concat ((t # q) # rounds) @ check # tail @ rest"
        using q(1) d(1) by simp
      moreover have "list_all (busy_round th iv) ((t # q) # rounds)"
        using nd q(2) d(2) by simp
      ultimately show ?thesis using d(3) by blast
    qed
  qed
qed

lemma monitor_loop_intro:
  assumes "list_all (busy_round th iv) rounds"
      and "if b then \<not> iteration_done check \<and> answers_idle th iv tail
           else iteration_done check \<and> tail = []"
  shows "monitor_loop th iv (concat rounds @ check # tail @ rest) = Some (b, rest)"
  using assms(1)
proof (induction rounds)
  case Nil
  show ?case
  proof (cases b)
    case True
    then have "poll_for_idle th iv (tail @ rest) = Some (POLL_IDLE, rest)"
      using assms(2) poll_idle_iff [of th iv "tail @ rest" rest] by auto
    then show ?thesis using True assms(2) by simp
  next
    case False
    then show ?thesis using assms(2) by simp
  qed
next
  case (Cons r rounds)
  then obtain c q where r: "r = c # q" "\<not> iteration_done c" "answers_busy th iv q"
    by (cases r) auto
  define X where "X = concat rounds @ check # tail @ rest"
  have "poll_for_idle th iv (q @ X) = Some (POLL_BUSY, X)"
    using r(3) poll_busy_iff [of th iv "q @ X" X] by auto
  moreover have "monitor_loop th iv X = Some (b, rest)"
    using Cons unfolding X_def by simp
  ultimately have "monitor_loop th iv (c # q @ X) = Some (b, rest)"
    using r(2) by simp
  then show ?case using r(1) unfolding X_def by simp
qed

lemma wait_loop_iff:
  "wait_loop e ts = Some rest \<longleftrightarrow>
     (\<exists>l. ts = l @ rest \<and> l \<noteq> []
        \<and> list_all (\<lambda>x. now x \<le> e \<and> \<not> iteration_done x) (butlast l)
        \<and> (e < now (last l) \<or> iteration_done (last l)))"
proof
  show "wait_loop e ts = Some rest \<Longrightarrow>
     \<exists>l. ts = l @ rest \<and> l \<noteq> []
        \<and> list_all (\<lambda>x. now x \<le> e \<and> \<not> iteration_done x) (butlast l)
        \<and> (e < now (last l) \<or> iteration_done (last l))"
  proof (induction ts)
    case Nil
    then show ?case by simp
  next
    case (Cons t ts)
    show ?case
    proof (cases "e \<ge> now t \<and> \<not> iteration_done t")
      case True
      then have "wait_loop e ts = Some rest" using Cons.prems by simp
      from Cons.IH [OF this] obtain l where
        "ts = l @ rest" "l \<noteq> []"
        "list_all (\<lambda>x. now x \<le> e \<and> \<not> iteration_done x) (butlast l)"
        "e < now (last l) \<or> iteration_done (last l)"
        by blast
      then show ?thesis
        using True by (intro exI [of _ "t # l"]) simp
    next
      case False
      then have "ts = rest" using Cons.prems by (auto split: if_splits)
      then show ?thesis
        using False by (intro exI [of _ "[t]"]) auto
    qed
  qed
next
  assume "\<exists>l. ts = l @ rest \<and> l \<noteq> []
        \<and> list_all (\<lambda>x. now x \<le> e \<and> \<not> iteration_done x) (butlast l)
        \<and> (e < now (last l) \<or> iteration_done (last l))"
  then obtain l where ts: "ts = l @ rest" and l: "l \<noteq> []"
    and a: "list_all (\<lambda>x. now x \<le> e \<and> \<not> iteration_done x) (butlast l)"
    and b: "e < now (last l) \<or> iteration_done (last l)"
    by blast
  have "wait_loop e (waits @ w # rest) = Some rest"
    if "list_all (\<lambda>x. now x \<le> e \<and> \<not> iteration_done x) waits"
      and "e < now w \<or> iteration_done w" for waits w
    using that by (induction waits) auto
  from this [OF a b] show "wait_loop e ts = Some rest"
    using ts split_last [OF l, of rest] by simp
qed

lemma monitor_process_iff:
  "monitor_process st ticks = Some (b, rest) \<longleftrightarrow>
     (\<exists>wait rounds check tail. ticks = wait @ concat rounds @ check # tail @ rest
        \<and> waited (idle_timeout st) wait
        \<and> list_all (busy_round (idle_threshold st) (idle_poll st)) rounds
        \<and> (if b then \<not> iteration_done check \<and> answers_idle (idle_threshold st) (idle_poll st) tail
            else iteration_done check \<and> tail = []))"
proof
  assume m: "monitor_process st ticks = Some (b, rest)"
  then obtain t0 ts where t0: "ticks = t0 # ts" by (cases ticks) auto
  then obtain ts1 where w1: "wait_loop (now t0 + idle_timeout st) ts = Some ts1"
    and m1: "monitor_loop (idle_threshold st) (idle_poll st) ts1 = Some (b, rest)"
    using m by (auto split: option.splits)
  from w1 obtain l where l: "ts = l @ ts1" "l \<noteq> []"
    "list_all (\<lambda>x. now x \<le> now t0 + idle_timeout st \<and> \<not> iteration_done x) (butlast l)"
    "now t0 + idle_timeout st < now (last l) \<or> iteration_done (last l)"
    unfolding wait_loop_iff by blast
  from monitor_loop_ends [OF m1] obtain rounds check tail where
    d: "ts1 = concat rounds @ check # tail @ rest"
       "list_all (busy_round (idle_threshold st) (idle_poll st)) rounds"
       "if b then \<not> iteration_done check \<and> answers_idle (idle_threshold st) (idle_poll st) tail
        else iteration_done check \<and> tail = []"
    by blast
  have "ticks = (t0 # l) @ concat rounds @ check # tail @ rest"
    using t0 l(1) d(1) by simp
  moreover have "waited (idle_timeout st) (t0 # l)" using l(2,3,4) by simp
  ultimately show "\<exists>wait rounds check tail. ticks = wait @ concat rounds @ check # tail @ rest
        \<and> waited (idle_timeout st) wait
        \<and> list_all (busy_round (idle_threshold st) (idle_poll st)) rounds
        \<and> (if b then \<not> iteration_done check \<and> answers_idle (idle_threshold st) (idle_poll st) tail
            else iteration_done check \<and> tail = [])"
    using d(2,3) by blast
next
  assume "\<exists>wait rounds check tail. ticks = wait @ concat rounds @ check # tail @ rest
        \<and> waited (idle_timeout st) wait
        \<and> list_all (busy_round (idle_threshold st) (idle_poll st)) rounds
        \<and> (if b then \<not> iteration_done check \<and> answers_idle (idle_threshold st) (idle_poll st) tail
            else iteration_done check \<and> tail = [])"
  then obtain wait rounds check tail where
    t: "ticks = wait @ concat rounds @ check # tail @ rest"
    and w: "waited (idle_timeout st) wait"
    and r: "list_all (busy_round (idle_threshold st) (idle_poll st)) rounds"
    and c: "if b then \<not> iteration_done check \<and> answers_idle (idle_threshold st) (idle_poll st) tail
            else iteration_done check \<and> tail = []"
    by blast
  obtain t0 l where wl: "wait = t0 # l" using w by (cases wait) auto
  define X where "X = concat rounds @ check # tail @ rest"
  have l: "l \<noteq> []"
    "list_all (\<lambda>x. now x \<le> now t0 + idle_timeout st \<and> \<not> iteration_done x) (butlast l)"
    "now t0 + idle_timeout st < now (last l) \<or> iteration_done (last l)"
    using w wl by simp_all
  have "wait_loop (now t0 + idle_timeout st) (l @ X) = Some X"
    unfolding wait_loop_iff using l by blast
  moreover have "monitor_loop (idle_threshold st) (idle_poll st) X = Some (b, rest)"
    unfolding X_def by (rule monitor_loop_intro [OF r c])
  ultimately show "monitor_process st ticks = Some (b, rest)"
    using t wl unfolding X_def by simp
qed

lemma sticky_later:
  "sticky (xs @ w # ys) \<Longrightarrow> iteration_done w \<Longrightarrow> c \<in> set ys \<Longrightarrow> iteration_done c"
  by (induction xs) (auto simp: list_all_iff)

text \<open>Claim C7, amended. Over the readings that the monitor takes, one for each
  iteration of its loops: the monitor returns without raising the idle signal exactly
  when, after the wait and any number of rounds in which the trial-done event was read
  as unset and the poll answered busy, it reads the event as set at the head of a
  round. It raises the idle signal exactly when, after the wait and any number of such
  rounds, it reads the event as unset and the poll then answers idle: from the start of
  the poll every reading is inside the window of \<open>idle_poll\<close> seconds with all CPU
  samples below \<open>idle_threshold\<close> and the target running, up to a reading outside
  the window, or one inside it, below the threshold, at which the target no longer
  runs. So a target that stops running makes the monitor raise the idle signal. The
  wait ends at the first reading after \<open>idle_timeout\<close> seconds or with the event
  set; when the signal is raised, for an event that stays set once it is set, the wait
  has ended by the clock.\<close>

theorem idle_monitor:
  "(monitor_process st ticks = Some (True, rest) \<longleftrightarrow>
      (\<exists>wait rounds check poll. ticks = wait @ concat rounds @ check # poll @ rest
         \<and> waited (idle_timeout st) wait
         \<and> list_all (busy_round (idle_threshold st) (idle_poll st)) rounds
         \<and> \<not> iteration_done check
         \<and> answers_idle (idle_threshold st) (idle_poll st) poll))
   \<and> (monitor_process st ticks = Some (False, rest) \<longleftrightarrow>
      (\<exists>wait rounds check. ticks = wait @ concat rounds @ check # rest
         \<and> waited (idle_timeout st) wait
         \<and> list_all (busy_round (idle_threshold st) (idle_poll st)) rounds
         \<and> iteration_done check))
   \<and> (sticky ticks \<and> monitor_process st ticks = Some (True, rest) \<longrightarrow>
      (\<exists>wait later. ticks = wait @ later \<and> waited (idle_timeout st) wait
         \<and> now (hd wait) + idle_timeout st < now (last wait)))"
proof (intro conjI)
  show "monitor_process st ticks = Some (True, rest) \<longleftrightarrow>
      (\<exists>wait rounds check poll. ticks = wait @ concat rounds @ check # poll @ rest
         \<and> waited (idle_timeout st) wait
         \<and> list_all (busy_round (idle_threshold st) (idle_poll st)) rounds
         \<and> \<not> iteration_done check
         \<and> answers_idle (idle_threshold st) (idle_poll st) poll)"
    unfolding monitor_process_iff by simp
  show "monitor_process st ticks = Some (False, rest) \<longleftrightarrow>
      (\<exists>wait rounds check. ticks = wait @ concat rounds @ check # rest
         \<and> waited (idle_timeout st) wait
         \<and> list_all (busy_round (idle_threshold st) (idle_poll st)) rounds
         \<and> iteration_done check)"
    unfolding monitor_process_iff by auto
  show "sticky ticks \<and> monitor_process st ticks = Some (True, rest) \<longrightarrow>
      (\<exists>wait later. ticks = wait @ later \<and> waited (idle_timeout st) wait
         \<and> now (hd wait) + idle_timeout st < now (last wait))"
  proof
    assume h: "sticky ticks \<and> monitor_process st ticks = Some (True, rest)"
    then obtain wait rounds check poll where
      t: "ticks = wait @ concat rounds @ check # poll @ rest"
      and w: "waited (idle_timeout st) wait"
      and c: "\<not> iteration_done check"
      unfolding monitor_process_iff by auto
    obtain t0 l where wl: "wait = t0 # l" using w by (cases wait) auto
    have l: "l \<noteq> []"
      "now t0 + idle_timeout st < now (last l) \<or> iteration_done (last l)"
      using w wl by simp_all
    have "ticks = (t0 # butlast l) @ last l # (concat rounds @ check # poll @ rest)"
      using t wl l(1) by simp
    then have "sticky ((t0 # butlast l) @ last l # (concat rounds @ check # poll @ rest))"
      using h by simp
    from sticky_later [OF this, of check] c have "\<not> iteration_done (last l)" by auto
    then have "now (hd wait) + idle_timeout st < now (last wait)"
      using l wl by simp
    then show "\<exists>wait later. ticks = wait @ later \<and> waited (idle_timeout st) wait
         \<and> now (hd wait) + idle_timeout st < now (last wait)"
      using t w by blast
  qed
qed

theorem idle_monitor_witness:
  "monitor_process demo_state
     [reading 0 50 True False, reading 30 50 True False, reading 61 50 True False,
      reading 61 50 True False, reading 61 50 True False, reading 62 50 True False,
      reading 63 5 True False, reading 63 5 True False, reading 64 5 True False,
      reading 65 5 True False, reading 66 5 True False] = Some (True, [])
   \<and> monitor_process demo_state
     [reading 0 50 True False, reading 10 50 True True,
      reading 10 50 True True, reading 11 50 True True]
       = Some (False, [reading 11 50 True True])"
proof -
  have f: "idle_threshold demo_state = 25" "idle_poll demo_state = 3"
    "idle_timeout demo_state = 60"
    by (simp_all add: demo_state_def)
  define wait1 where "wait1 = [reading 0 50 True False, reading 30 50 True False,
      reading 61 50 True False]"
  define round1 where "round1 = [reading 61 50 True False, reading 61 50 True False,
      reading 62 50 True False]"
  define poll1 where "poll1 = [reading 63 5 True False, reading 64 5 True False,
      reading 65 5 True False, reading 66 5 True False]"
  have "waited (idle_timeout demo_state) wait1
      \<and> list_all (busy_round (idle_threshold demo_state) (idle_poll demo_state)) [round1]
      \<and> \<not> iteration_done (reading 63 5 True False)
      \<and> answers_idle (idle_threshold demo_state) (idle_poll demo_state) poll1"
    by (simp add: f wait1_def round1_def poll1_def reading_def polling_def below_def)
  then have "\<exists>wait rounds check poll.
         wait1 @ round1 @ reading 63 5 True False # poll1
           = wait @ concat rounds @ check # poll @ []
         \<and> waited (idle_timeout demo_state) wait
         \<and> list_all (busy_round (idle_threshold demo_state) (idle_poll demo_state)) rounds
         \<and> \<not> iteration_done check
         \<and> answers_idle (idle_threshold demo_state) (idle_poll demo_state) poll"
    by (intro exI [of _ wait1] exI [of _ "[round1]"] exI [of _ "reading 63 5 True False"]
        exI [of _ poll1]) simp
  then have a: "monitor_process demo_state (wait1 @ round1 @ reading 63 5 True False # poll1)
                  = Some (True, [])"
    using idle_monitor [of demo_state "wait1 @ round1 @ reading 63 5 True False # poll1" "[]"]
    by blast
  define wait2 where "wait2 = [reading 0 50 True False, reading 10 50 True True]"
  have "waited (idle_timeout demo_state) wait2
      \<and> list_all (busy_round (idle_threshold demo_state) (idle_poll demo_state)) []
      \<and> iteration_done (reading 10 50 True True)"
    by (simp add: f wait2_def reading_def)
  then have "\<exists>wait rounds check.
         wait2 @ [reading 10 50 True True, reading 11 50 True True]
           = wait @ concat rounds @ check # [reading 11 50 True True]
         \<and> waited (idle_timeout demo_state) wait
         \<and> list_all (busy_round (idle_threshold demo_state) (idle_poll demo_state)) rounds
         \<and> iteration_done check"
    by (intro exI [of _ wait2] exI [of _ "[]"] exI [of _ "reading 10 50 True True"]) simp
  then have b: "monitor_process demo_state
                  (wait2 @ [reading 10 50 True True, reading 11 50 True True])
                  = Some (False, [reading 11 50 True True])"
    using idle_monitor [of demo_state
        "wait2 @ [reading 10 50 True True, reading 11 50 True True]"
        "[reading 11 50 True True]"]
    by blast
  show ?thesis
    using a b unfolding wait1_def round1_def poll1_def wait2_def
    by (simp del: monitor_process.simps)
qed


text \<open>Claim C7 as it is stated fails when the target stops running:
  \<^verbatim>\<open>poll_for_idle\<close> leaves its loop by \<^verbatim>\<open>break\<close> and returns \<^verbatim>\<open>POLL_IDLE\<close>, so
  the monitor raises the idle signal, half a second into a window of three.\<close>

theorem idle_monitor_counterexample:
  "monitor_process demo_state
     [reading 0 50 True False, reading 61 50 True False, reading 61 50 True False,
      reading 61 5 True False, reading 61.5 0 False False] = Some (True, [])
   \<and> \<not> running (reading 61.5 0 False False)
   \<and> now (reading 61.5 0 False False) - now (reading 61 5 True False) < idle_poll demo_state"
  by (simp add: reading_def demo_state_def)

section \<open>The monitor is joined on every way out of a trial\<close>

text \<open>Claim C8. On every way out of the \<^verbatim>\<open>try\<close> of \<^verbatim>\<open>_run\<close>, whether the trial
  returns a verdict or an exception is raised while serving or classifying, the
  trial-done signal is set and the monitor thread is joined, as the last two things the
  trial does, and the thread was started exactly once before. The result \<open>r\<close> is any
  of a verdict and an exception. The only way out that is not through the \<^verbatim>\<open>try\<close> is
  an exception of the launch that the retry loop does not catch: then no monitor thread
  was started.\<close>

theorem run_joins_monitor:
  assumes "run p obs st = (r, st')"
  shows "(fst (relaunch obs (ensure_server st)) = None \<longrightarrow>
            (\<exists>pre mid. trace st' = trace st @ pre @ [MonitorStart] @ mid @ [IterationDoneSet, MonitorJoin]
               \<and> MonitorStart \<notin> set (pre @ mid) \<and> IterationDoneSet \<notin> set (pre @ mid)
               \<and> MonitorJoin \<notin> set (pre @ mid)))
       \<and> (\<forall>e. fst (relaunch obs (ensure_server st)) = Some e \<longrightarrow>
            r = Inl e \<and> (\<exists>pre. trace st' = trace st @ pre
               \<and> MonitorStart \<notin> set pre \<and> IterationDoneSet \<notin> set pre \<and> MonitorJoin \<notin> set pre))"
proof -
  define st0 where "st0 = ensure_server st"
  have a: "extends st st0" unfolding st0_def by (rule ensure_server_extends)
  obtain r1 st1 where l: "relaunch obs st0 = (r1, st1)" by (cases "relaunch obs st0")
  have b: "extends st st1" using extends_trans [OF a relaunch_extends [of st0 obs]] l by simp
  then obtain pre where pre: "trace st1 = trace st @ pre" "quiet pre"
    by (auto simp: extends_def)
  obtain r2 st2 where t: "serve_and_classify p obs st1 = (r2, st2)"
    by (cases "serve_and_classify p obs st1")
  have c: "extends (log_event [MonitorStart] st1) st2"
    using serve_and_classify_extends [of st1 p obs] t by simp
  then obtain mid where mid: "trace st2 = trace st1 @ [MonitorStart] @ mid" "quiet mid"
    by (auto simp: extends_def log_event_def)
  show ?thesis
  proof (cases r1)
    case None
    then have "trace st' = trace st2 @ [IterationDoneSet, MonitorJoin]"
      using assms unfolding run_def Let_def st0_def [symmetric] l
      by (auto simp: t log_event_def)
    then have "trace st' = trace st @ pre @ [MonitorStart] @ mid @ [IterationDoneSet, MonitorJoin]"
      using pre mid by simp
    moreover have "MonitorStart \<notin> set (pre @ mid) \<and> IterationDoneSet \<notin> set (pre @ mid)
               \<and> MonitorJoin \<notin> set (pre @ mid)"
      using pre(2) mid(2) by (simp add: quiet_def)
    ultimately show ?thesis
      using None l unfolding st0_def by auto
  next
    case (Some e)
    then have "r = Inl e" "trace st' = trace st1"
      using assms unfolding run_def Let_def st0_def [symmetric] l
      by auto
    then show ?thesis
      using Some l pre unfolding st0_def by (auto simp: quiet_def)
  qed
qed

theorem run_joins_monitor_witness:
  "fst (run ''t/1'' ((crash_obs ''f'')\<lparr>serve := Inl (OtherError ''serve_path'')\<rparr>) demo_state)
     = Inl (OtherError ''serve_path'')
   \<and> (\<exists>pre mid.
        trace (snd (run ''t/1'' ((crash_obs ''f'')\<lparr>serve := Inl (OtherError ''serve_path'')\<rparr>) demo_state))
          = trace demo_state @ pre @ [MonitorStart] @ mid @ [IterationDoneSet, MonitorJoin]
        \<and> MonitorStart \<notin> set (pre @ mid) \<and> IterationDoneSet \<notin> set (pre @ mid)
        \<and> MonitorJoin \<notin> set (pre @ mid))
   \<and> fst (run ''t/1'' ((crash_obs ''f'')\<lparr>report := Inl (OtherError ''from_path'')\<rparr>) demo_state)
     = Inl (OtherError ''from_path'')
   \<and> (\<exists>pre mid.
        trace (snd (run ''t/1'' ((crash_obs ''f'')\<lparr>report := Inl (OtherError ''from_path'')\<rparr>) demo_state))
          = trace demo_state @ pre @ [MonitorStart] @ mid @ [IterationDoneSet, MonitorJoin]
        \<and> MonitorStart \<notin> set (pre @ mid) \<and> IterationDoneSet \<notin> set (pre @ mid)
        \<and> MonitorJoin \<notin> set (pre @ mid))"
proof -
  have a: "fst (relaunch ((crash_obs ''f'')\<lparr>serve := Inl (OtherError ''serve_path'')\<rparr>)
             (ensure_server demo_state)) = None"
    by (simp add: trial_defs demo_defs)
  have b: "fst (relaunch ((crash_obs ''f'')\<lparr>report := Inl (OtherError ''from_path'')\<rparr>)
             (ensure_server demo_state)) = None"
    by (simp add: trial_defs demo_defs)
  have c: "fst (run ''t/1'' ((crash_obs ''f'')\<lparr>serve := Inl (OtherError ''serve_path'')\<rparr>) demo_state)
     = Inl (OtherError ''serve_path'')"
    by (simp add: trial_defs demo_defs)
  have d: "fst (run ''t/1'' ((crash_obs ''f'')\<lparr>report := Inl (OtherError ''from_path'')\<rparr>) demo_state)
     = Inl (OtherError ''from_path'')"
    by (simp add: trial_defs demo_defs)
  show ?thesis
    using a b c d
      run_joins_monitor [where p = "''t/1''" and st = demo_state
        and obs = "(crash_obs ''f'')\<lparr>serve := Inl (OtherError ''serve_path'')\<rparr>",
        OF prod.collapse [symmetric]]
      run_joins_monitor [where p = "''t/1''" and st = demo_state
        and obs = "(crash_obs ''f'')\<lparr>report := Inl (OtherError ''from_path'')\<rparr>",
        OF prod.collapse [symmetric]]
    by simp
qed

section \<open>The launch is retried\<close>

lemma launch_result:
  "launch tgt loc em out =
     (if \<not> has_prefs tgt then (Some (TargetError ''A prefs.js file is required''), tgt, [])
      else (fst (launch tgt loc em out), launched tgt, snd (snd (launch tgt loc em out))))"
  unfolding launch_def Let_def has_prefs_def launched_def
  by (auto split: option.splits puppet_exception.splits)




















section \<open>The environment of a launch\<close>

text \<open>Claim C10. Whenever \<^verbatim>\<open>PuppetTarget.launch\<close> calls the puppet's launch, whatever
  \<^verbatim>\<open>env_mod\<close> the caller gave, the environment it passes maps
  \<^verbatim>\<open>MOZ_DISABLE_NONLOCAL_CONNECTIONS\<close> and \<^verbatim>\<open>MOZ_CRASHREPORTER_SHUTDOWN\<close> to
  \<^verbatim>\<open>"1"\<close>. The puppet is called exactly when a prefs file is set; without one the
  call raises \<^verbatim>\<open>TargetError\<close> and nothing is passed to the puppet.\<close>

theorem launch_forces_environment:
  assumes "launch tgt loc em outcome = (r, tgt', calls)"
  shows "(\<forall>args. PuppetLaunch args \<in> set calls \<longrightarrow>
            la_env_mod args ''MOZ_DISABLE_NONLOCAL_CONNECTIONS'' = Some (Some ''1'')
          \<and> la_env_mod args ''MOZ_CRASHREPORTER_SHUTDOWN'' = Some (Some ''1''))
       \<and> ((\<exists>pj. prefs tgt = Some pj \<and> pj \<noteq> []) \<longrightarrow>
            calls \<noteq> [] \<and> (\<exists>args. hd calls = PuppetLaunch args))
       \<and> (\<not> (\<exists>pj. prefs tgt = Some pj \<and> pj \<noteq> []) \<longrightarrow>
            calls = [] \<and> (\<exists>m. r = Some (TargetError m)))"
  using assms unfolding launch_def Let_def
  by (auto split: option.splits if_splits puppet_exception.splits)

theorem launch_forces_environment_witness:
  "\<exists>args. hd (snd (snd (launch demo_target (LandingPage 8000 ''test.html'')
              (Some [''MOZ_CRASHREPORTER_SHUTDOWN'' \<mapsto> Some ''0'',
                     ''MOZ_DISABLE_NONLOCAL_CONNECTIONS'' \<mapsto> None]) None))) = PuppetLaunch args
     \<and> la_env_mod args ''MOZ_DISABLE_NONLOCAL_CONNECTIONS'' = Some (Some ''1'')
     \<and> la_env_mod args ''MOZ_CRASHREPORTER_SHUTDOWN'' = Some (Some ''1'')"
proof -
  define em :: "(string \<rightharpoonup> string option) option"
    where "em = Some [''MOZ_CRASHREPORTER_SHUTDOWN'' \<mapsto> Some ''0'',
                     ''MOZ_DISABLE_NONLOCAL_CONNECTIONS'' \<mapsto> None]"
  define res where "res = launch demo_target (LandingPage 8000 ''test.html'') em None"
  have p: "\<exists>pj. prefs demo_target = Some pj \<and> pj \<noteq> []"
    by (simp add: demo_target_def)
  have r: "res = (fst res, fst (snd res), snd (snd res))" by simp
  from launch_forces_environment [OF r [unfolded res_def]] p
  have "snd (snd res) \<noteq> [] \<and> (\<exists>args. hd (snd (snd res)) = PuppetLaunch args)"
    and "\<forall>args. PuppetLaunch args \<in> set (snd (snd res)) \<longrightarrow>
            la_env_mod args ''MOZ_DISABLE_NONLOCAL_CONNECTIONS'' = Some (Some ''1'')
          \<and> la_env_mod args ''MOZ_CRASHREPORTER_SHUTDOWN'' = Some (Some ''1'')"
    unfolding res_def by blast+
  then show ?thesis
    unfolding res_def em_def by (metis hd_in_set)
qed

end
